theory Spec2Isabelle
  imports Main "HOL-Library.Sublist"
begin

section \<open>Strings and the pieces of the Python library the validator uses\<close>

text \<open>
  A Python \<open>str\<close> is modelled as a \<open>string\<close> whose characters are the code points
  below 256. On that range \<open>\d\<close> of the \<open>re\<close> module is the ten ASCII digits, and
  \<open>\s\<close> and \<open>str.strip()\<close> use the whitespace set of \<open>str.isspace\<close> written out
  below. Console output (\<open>print\<close>) and file access are left out: every function takes
  the text it would have read and returns the value it would have returned.
\<close>

definition is_digit :: "char \<Rightarrow> bool" where
  "is_digit c = (c \<in> set ''0123456789'')"

definition is_space :: "char \<Rightarrow> bool" where
  "is_space c = (c \<in> set [CHR 0x09, CHR 0x0A, CHR 0x0B, CHR 0x0C, CHR 0x0D,
                            CHR 0x1C, CHR 0x1D, CHR 0x1E, CHR 0x1F, CHR 0x20,
                            CHR 0x85, CHR 0xA0])"

definition all_digits :: "string \<Rightarrow> bool" where
  "all_digits s = list_all is_digit s"

text \<open>\<open>s.strip()\<close>: whitespace removed at both ends.\<close>

definition strip :: "string \<Rightarrow> string" where
  "strip s = rev (dropWhile is_space (rev (dropWhile is_space s)))"

text \<open>\<open>s.zfill(n)\<close>: zeros on the left up to width \<open>n\<close>, after a leading sign.\<close>

definition zfill :: "nat \<Rightarrow> string \<Rightarrow> string" where
  "zfill n s =
     (case s of
        [] \<Rightarrow> replicate n CHR ''0''
      | c # r \<Rightarrow>
          if c = CHR ''+'' \<or> c = CHR ''-''
          then c # replicate (n - length s) CHR ''0'' @ r
          else replicate (n - length s) CHR ''0'' @ s)"

text \<open>\<open>int(s)\<close> on a string of digits, and \<open>str(n)\<close> on a natural number.\<close>

definition digit_val :: "char \<Rightarrow> nat" where
  "digit_val c = of_char c - 48"

definition int_of_digits :: "string \<Rightarrow> nat" where
  "int_of_digits s = foldl (\<lambda>a c. 10 * a + digit_val c) 0 s"

definition digit_char :: "nat \<Rightarrow> char" where
  "digit_char n = char_of (48 + n)"

function str_of_nat :: "nat \<Rightarrow> string" where
  "str_of_nat n = (if n < 10 then [digit_char n] else str_of_nat (n div 10) @ [digit_char (n mod 10)])"
  by pat_completeness auto
termination
  by (relation "measure id") auto

text \<open>\<open>xs.index(x)\<close> for an element known to occur (the position of the first occurrence).\<close>

fun index_of :: "'a list \<Rightarrow> 'a \<Rightarrow> nat" where
  "index_of [] x = 0"
| "index_of (y # ys) x = (if x = y then 0 else Suc (index_of ys x))"

subsection \<open>\<open>datetime.strptime(s, '%Y-%m-%d')\<close>\<close>

text \<open>
  The standard library turns the format into the regular expression
  \<open>(?P<Y>\d\d\d\d)-(?P<m>1[0-2]|0[1-9]|[1-9])-(?P<d>3[0-1]|[1-2]\d|0[1-9]|[1-9]| [1-9])\<close>,
  matches it at the start of the string, raises \<open>ValueError\<close> when the match fails or
  leaves text unconverted, and then builds the date, which raises \<open>ValueError\<close> for
  year 0 and for a day the month does not have. \<open>None\<close> stands for \<open>ValueError\<close>.
\<close>

definition is_leap :: "nat \<Rightarrow> bool" where
  "is_leap y = (y mod 4 = 0 \<and> (y mod 100 \<noteq> 0 \<or> y mod 400 = 0))"

definition days_in_month :: "nat \<Rightarrow> nat \<Rightarrow> nat" where
  "days_in_month y m =
     (if m = 2 then (if is_leap y then 29 else 28)
      else if m = 4 \<or> m = 6 \<or> m = 9 \<or> m = 11 then 30 else 31)"

text \<open>The month alternatives, each followed by the literal \<open>-\<close>; the result is the month and the text after the dash.\<close>

fun strptime_month :: "string \<Rightarrow> (nat \<times> string) option" where
  "strptime_month (a # b # c # r) =
     (if a = CHR ''1'' \<and> b \<in> set ''012'' \<and> c = CHR ''-'' then Some (int_of_digits [a, b], r)
      else if a = CHR ''0'' \<and> b \<in> set ''123456789'' \<and> c = CHR ''-'' then Some (int_of_digits [a, b], r)
      else if a \<in> set ''123456789'' \<and> b = CHR ''-'' then Some (int_of_digits [a], c # r)
      else None)"
| "strptime_month [a, b] =
     (if a \<in> set ''123456789'' \<and> b = CHR ''-'' then Some (int_of_digits [a], []) else None)"
| "strptime_month _ = None"

text \<open>The day alternatives in their order; the result is the day and the unconverted text.\<close>

fun strptime_day :: "string \<Rightarrow> (nat \<times> string) option" where
  "strptime_day (a # b # r) =
     (if a = CHR ''3'' \<and> b \<in> set ''01'' then Some (int_of_digits [a, b], r)
      else if a \<in> set ''12'' \<and> is_digit b then Some (int_of_digits [a, b], r)
      else if a = CHR ''0'' \<and> b \<in> set ''123456789'' then Some (int_of_digits [a, b], r)
      else if a \<in> set ''123456789'' then Some (int_of_digits [a], b # r)
      else if a = CHR '' '' \<and> b \<in> set ''123456789'' then Some (int_of_digits [b], r)
      else None)"
| "strptime_day [a] = (if a \<in> set ''123456789'' then Some (int_of_digits [a], []) else None)"
| "strptime_day [] = None"

definition strptime_ymd :: "string \<Rightarrow> (nat \<times> nat \<times> nat) option" where
  "strptime_ymd s =
     (case s of
        y1 # y2 # y3 # y4 # dash # r \<Rightarrow>
          if all_digits [y1, y2, y3, y4] \<and> dash = CHR ''-'' then
            (case strptime_month r of
               None \<Rightarrow> None
             | Some (m, r') \<Rightarrow>
                 (case strptime_day r' of
                    None \<Rightarrow> None
                  | Some (d, r'') \<Rightarrow>
                      let y = int_of_digits [y1, y2, y3, y4] in
                      if r'' = [] \<and> 1 \<le> y \<and> d \<le> days_in_month y m then Some (y, m, d)
                      else None))
          else None
      | _ \<Rightarrow> None)"

section \<open>DateNormalizer: \<open>normalize_date_format\<close>\<close>

subsection \<open>The regular expressions of the pattern list\<close>

text \<open>
  Every pattern of the list is used with \<open>re.fullmatch\<close> and has three groups. The
  numeric ones have the form \<open>(\d{a,b})S(\d{c,d})S(\d{e,f})\<close> with a separator \<open>S\<close> that
  is not a digit, so the whole string splits at the first two separators in one way
  only: \<open>num3\<close> returns the three groups.
\<close>

definition in_range :: "nat \<times> nat \<Rightarrow> string \<Rightarrow> bool" where
  "in_range b s = (all_digits s \<and> fst b \<le> length s \<and> length s \<le> snd b)"

definition num3 :: "nat \<times> nat \<Rightarrow> char \<Rightarrow> nat \<times> nat \<Rightarrow> nat \<times> nat \<Rightarrow> string
                     \<Rightarrow> (string \<times> string \<times> string) option" where
  "num3 b1 sep b2 b3 s =
     (let g1 = takeWhile is_digit s; r1 = dropWhile is_digit s in
      case r1 of
        [] \<Rightarrow> None
      | c1 # t1 \<Rightarrow>
          let g2 = takeWhile is_digit t1; r2 = dropWhile is_digit t1 in
          (case r2 of
             [] \<Rightarrow> None
           | c2 # g3 \<Rightarrow>
               if c1 = sep \<and> c2 = sep \<and> in_range b1 g1 \<and> in_range b2 g2 \<and> in_range b3 g3
               then Some (g1, g2, g3) else None))"

text \<open>\<open>(\d{a})(\d{b})(\d{c})\<close>: fixed widths, no separators.\<close>

definition compact3 :: "nat \<Rightarrow> nat \<Rightarrow> nat \<Rightarrow> string \<Rightarrow> (string \<times> string \<times> string) option" where
  "compact3 a b c s =
     (if all_digits s \<and> length s = a + b + c
      then Some (take a s, take b (drop a s), drop (a + b) s) else None)"

definition months_abbr :: "string list" where
  "months_abbr = [''Jan'', ''Feb'', ''Mar'', ''Apr'', ''May'', ''Jun'',
                  ''Jul'', ''Aug'', ''Sep'', ''Oct'', ''Nov'', ''Dec'']"

definition months_full :: "string list" where
  "months_full = [''January'', ''February'', ''March'', ''April'', ''May'', ''June'',
                  ''July'', ''August'', ''September'', ''October'', ''November'', ''December'']"

text \<open>
  The tail \<open>\s+(\d{1,2}),?\s+(\d{4})\<close> of the month-name patterns, up to the end of the
  string: the runs of whitespace and of digits are maximal, since what follows each of
  them cannot start with a character of the run.
\<close>

definition day_year_tail :: "string \<Rightarrow> (string \<times> string) option" where
  "day_year_tail r =
     (let r1 = dropWhile is_space r;
          d = takeWhile is_digit r1;
          r2 = dropWhile is_digit r1;
          r3 = (case r2 of [] \<Rightarrow> [] | c # t \<Rightarrow> if c = CHR '','' then t else r2);
          y = dropWhile is_space r3
      in if takeWhile is_space r \<noteq> [] \<and> in_range (1, 2) d \<and> takeWhile is_space r3 \<noteq> []
            \<and> in_range (4, 4) y
         then Some (d, y) else None)"

text \<open>\<open>(Jan|Feb|...)\s+(\d{1,2}),?\s+(\d{4})\<close>: the alternatives are tried in their order.\<close>

fun month_day_year :: "string list \<Rightarrow> string \<Rightarrow> (string \<times> string \<times> string) option" where
  "month_day_year [] s = None"
| "month_day_year (name # names) s =
     (if prefix name s then
        (case day_year_tail (drop (length name) s) of
           Some (d, y) \<Rightarrow> Some (name, d, y)
         | None \<Rightarrow> month_day_year names s)
      else month_day_year names s)"

text \<open>\<open>(\d{1,2})-(Jan|Feb|...)-(\d{4})\<close>.\<close>

fun name_year :: "string list \<Rightarrow> string \<Rightarrow> (string \<times> string) option" where
  "name_year [] s = None"
| "name_year (name # names) s =
     (if prefix (name @ ''-'') s \<and> in_range (4, 4) (drop (length name + 1) s)
      then Some (name, drop (length name + 1) s)
      else name_year names s)"

definition day_month_year :: "string list \<Rightarrow> string \<Rightarrow> (string \<times> string \<times> string) option" where
  "day_month_year names s =
     (let d = takeWhile is_digit s in
      case dropWhile is_digit s of
        [] \<Rightarrow> None
      | c # r \<Rightarrow>
          if c = CHR ''-'' \<and> in_range (1, 2) d then
            (case name_year names r of Some (name, y) \<Rightarrow> Some (d, name, y) | None \<Rightarrow> None)
          else None)"

subsection \<open>The pattern list\<close>

text \<open>
  Each entry is the regular expression as the source writes it (the text that is
  returned as the third component), its \<open>re.fullmatch\<close> and its formatter. The
  comments of the source name the entries: MM/DD/YYYY, MM/DD/YY, DD/MM/YYYY, DD/MM/YY,
  the same four with \<open>-\<close>, YYYY/MM/DD, YYYY.MM.DD, YY.MM.DD, the four with \<open>.\<close>,
  YYYYMMDD, YYMMDD, and the four month-name shapes.
\<close>

definition bsl :: string where
  "bsl = [CHR 0x5C]"

definition re_d :: "string \<Rightarrow> string" where
  "re_d q = ''('' @ bsl @ ''d{'' @ q @ ''})''"

definition re_alt :: "string list \<Rightarrow> string" where
  "re_alt names = ''('' @ foldr (\<lambda>n acc. if acc = [] then n else n @ ''|'' @ acc) names [] @ '')''"

definition re_num3 :: "string \<Rightarrow> string \<Rightarrow> string \<Rightarrow> string \<Rightarrow> string" where
  "re_num3 q1 sep q2 q3 = re_d q1 @ sep @ re_d q2 @ sep @ re_d q3"

definition re_month_first :: "string list \<Rightarrow> string" where
  "re_month_first names =
     re_alt names @ bsl @ ''s+'' @ re_d ''1,2'' @ '',?'' @ bsl @ ''s+'' @ re_d ''4''"

definition re_day_first :: "string list \<Rightarrow> string" where
  "re_day_first names = re_d ''1,2'' @ ''-'' @ re_alt names @ ''-'' @ re_d ''4''"

type_synonym groups = "string \<times> string \<times> string"

type_synonym pattern = "string \<times> (string \<Rightarrow> groups option) \<times> (groups \<Rightarrow> string)"

definition month_number :: "string list \<Rightarrow> string \<Rightarrow> string" where
  "month_number names g = zfill 2 (str_of_nat (index_of names g + 1))"

definition patterns :: "pattern list" where
  "patterns =
    [(re_num3 ''1,2'' ''/'' ''1,2'' ''4'', num3 (1, 2) CHR ''/'' (1, 2) (4, 4),
        \<lambda>(g1, g2, g3). g3 @ ''-'' @ zfill 2 g1 @ ''-'' @ zfill 2 g2),
     (re_num3 ''1,2'' ''/'' ''1,2'' ''2'', num3 (1, 2) CHR ''/'' (1, 2) (2, 2),
        \<lambda>(g1, g2, g3). ''20'' @ g3 @ ''-'' @ zfill 2 g1 @ ''-'' @ zfill 2 g2),
     (re_num3 ''1,2'' ''/'' ''1,2'' ''4'', num3 (1, 2) CHR ''/'' (1, 2) (4, 4),
        \<lambda>(g1, g2, g3). g3 @ ''-'' @ zfill 2 g2 @ ''-'' @ zfill 2 g1),
     (re_num3 ''1,2'' ''/'' ''1,2'' ''2'', num3 (1, 2) CHR ''/'' (1, 2) (2, 2),
        \<lambda>(g1, g2, g3). ''20'' @ g3 @ ''-'' @ zfill 2 g2 @ ''-'' @ zfill 2 g1),
     (re_num3 ''1,2'' ''-'' ''1,2'' ''4'', num3 (1, 2) CHR ''-'' (1, 2) (4, 4),
        \<lambda>(g1, g2, g3). g3 @ ''-'' @ zfill 2 g1 @ ''-'' @ zfill 2 g2),
     (re_num3 ''1,2'' ''-'' ''1,2'' ''2'', num3 (1, 2) CHR ''-'' (1, 2) (2, 2),
        \<lambda>(g1, g2, g3). ''20'' @ g3 @ ''-'' @ zfill 2 g1 @ ''-'' @ zfill 2 g2),
     (re_num3 ''1,2'' ''-'' ''1,2'' ''4'', num3 (1, 2) CHR ''-'' (1, 2) (4, 4),
        \<lambda>(g1, g2, g3). g3 @ ''-'' @ zfill 2 g2 @ ''-'' @ zfill 2 g1),
     (re_num3 ''1,2'' ''-'' ''1,2'' ''2'', num3 (1, 2) CHR ''-'' (1, 2) (2, 2),
        \<lambda>(g1, g2, g3). ''20'' @ g3 @ ''-'' @ zfill 2 g2 @ ''-'' @ zfill 2 g1),
     (re_num3 ''4'' ''/'' ''1,2'' ''1,2'', num3 (4, 4) CHR ''/'' (1, 2) (1, 2),
        \<lambda>(g1, g2, g3). g1 @ ''-'' @ zfill 2 g2 @ ''-'' @ zfill 2 g3),
     (re_num3 ''4'' (bsl @ ''.'') ''1,2'' ''1,2'', num3 (4, 4) CHR ''.'' (1, 2) (1, 2),
        \<lambda>(g1, g2, g3). g1 @ ''-'' @ zfill 2 g2 @ ''-'' @ zfill 2 g3),
     (re_num3 ''2'' (bsl @ ''.'') ''1,2'' ''1,2'', num3 (2, 2) CHR ''.'' (1, 2) (1, 2),
        \<lambda>(g1, g2, g3). ''20'' @ g1 @ ''-'' @ zfill 2 g2 @ ''-'' @ zfill 2 g3),
     (re_num3 ''1,2'' (bsl @ ''.'') ''1,2'' ''4'', num3 (1, 2) CHR ''.'' (1, 2) (4, 4),
        \<lambda>(g1, g2, g3). g3 @ ''-'' @ zfill 2 g1 @ ''-'' @ zfill 2 g2),
     (re_num3 ''1,2'' (bsl @ ''.'') ''1,2'' ''2'', num3 (1, 2) CHR ''.'' (1, 2) (2, 2),
        \<lambda>(g1, g2, g3). ''20'' @ g3 @ ''-'' @ zfill 2 g1 @ ''-'' @ zfill 2 g2),
     (re_num3 ''1,2'' (bsl @ ''.'') ''1,2'' ''4'', num3 (1, 2) CHR ''.'' (1, 2) (4, 4),
        \<lambda>(g1, g2, g3). g3 @ ''-'' @ zfill 2 g2 @ ''-'' @ zfill 2 g1),
     (re_num3 ''1,2'' (bsl @ ''.'') ''1,2'' ''2'', num3 (1, 2) CHR ''.'' (1, 2) (2, 2),
        \<lambda>(g1, g2, g3). ''20'' @ g3 @ ''-'' @ zfill 2 g2 @ ''-'' @ zfill 2 g1),
     (re_d ''4'' @ re_d ''2'' @ re_d ''2'', compact3 4 2 2,
        \<lambda>(g1, g2, g3). g1 @ ''-'' @ g2 @ ''-'' @ g3),
     (re_d ''2'' @ re_d ''2'' @ re_d ''2'', compact3 2 2 2,
        \<lambda>(g1, g2, g3). ''20'' @ g1 @ ''-'' @ g2 @ ''-'' @ g3),
     (re_month_first months_abbr, month_day_year months_abbr,
        \<lambda>(g1, g2, g3). g3 @ ''-'' @ month_number months_abbr g1 @ ''-'' @ zfill 2 g2),
     (re_month_first months_full, month_day_year months_full,
        \<lambda>(g1, g2, g3). g3 @ ''-'' @ month_number months_full g1 @ ''-'' @ zfill 2 g2),
     (re_day_first months_abbr, day_month_year months_abbr,
        \<lambda>(g1, g2, g3). g3 @ ''-'' @ month_number months_abbr g2 @ ''-'' @ zfill 2 g1),
     (re_day_first months_full, day_month_year months_full,
        \<lambda>(g1, g2, g3). g3 @ ''-'' @ month_number months_full g2 @ ''-'' @ zfill 2 g1)]"

subsection \<open>The function\<close>

text \<open>
  \<open>re.fullmatch(ISO_DATE_PATTERN, s)\<close>. The pattern comes from the configuration; it is
  taken to be \<open>\d{4}-\d{2}-\d{2}\<close>, the one the source falls back to.
\<close>

definition iso_fullmatch :: "string \<Rightarrow> bool" where
  "iso_fullmatch s = (num3 (4, 4) CHR ''-'' (2, 2) (2, 2) s \<noteq> None)"

text \<open>
  The loop over the patterns: the first pattern that matches the whole string and whose
  formatted result \<open>strptime\<close> accepts returns; a \<open>ValueError\<close> moves on to the next.
\<close>

fun try_patterns :: "pattern list \<Rightarrow> string \<Rightarrow> (string \<times> string) option" where
  "try_patterns [] date_str = None"
| "try_patterns ((pattern, fullmatch, formatter) # ps) date_str =
     (case fullmatch date_str of
        None \<Rightarrow> try_patterns ps date_str
      | Some m \<Rightarrow>
          let normalized = formatter m in
          (case strptime_ymd normalized of
             None \<Rightarrow> try_patterns ps date_str
           | Some _ \<Rightarrow> Some (normalized, pattern)))"

text \<open>The result is the triple of the source; \<open>None\<close> in it is Python's \<open>None\<close>.\<close>

definition normalize_date_format :: "string \<Rightarrow> string option \<times> bool \<times> string option" where
  "normalize_date_format date_str =
     (if date_str = [] then (None, False, None)
      else if iso_fullmatch date_str then (Some date_str, False, Some ''YYYY-MM-DD'')
      else
        (case try_patterns patterns date_str of
           Some (normalized, pattern) \<Rightarrow> (Some normalized, True, Some pattern)
         | None \<Rightarrow> (Some date_str, False, Some ''unknown'')))"

section \<open>MetadataBlockParser: \<open>extract_metadata_block\<close>\<close>

text \<open>
  The metadata is a Python \<open>dict\<close>: an association list in insertion order, where
  storing under a key that is present replaces its value in place.
\<close>

type_synonym dict = "(string \<times> string) list"


text \<open>\<open>d.get(k, default)\<close>.\<close>

definition dict_get :: "dict \<Rightarrow> string \<Rightarrow> string \<Rightarrow> string" where
  "dict_get d k dflt = (case map_of d k of Some v \<Rightarrow> v | None \<Rightarrow> dflt)"

definition not_newline :: "char \<Rightarrow> bool" where
  "not_newline c = (c \<noteq> CHR 0x0A)"














section \<open>MetadataBlockWriter: \<open>update_metadata_block\<close>\<close>

text \<open>
  \<open>REQUIRED_FIELDS\<close> comes from the configuration, so the writer takes the list as its
  first argument; the list the source falls back to is \<open>fallback_required_fields\<close>.
\<close>

definition fallback_required_fields :: "string list" where
  "fallback_required_fields =
     [''Document Title'', ''Author'', ''Created'', ''Last Updated'', ''Version'', ''Description'']"

datatype py_error = TypeError

text \<open>The line \<open>f"- **{field}:** {value}\n"\<close>.\<close>

definition field_line :: "string \<Rightarrow> string \<Rightarrow> string" where
  "field_line field val = ''- **'' @ field @ '':** '' @ val @ ''\<newline>''"

text \<open>
  The block boundaries are \<open>None\<close> or an index. \<open>lines[:None]\<close> is the whole list, and
  \<open>None + 1\<close> raises \<open>TypeError\<close>, after the new block has been built.
\<close>

definition update_metadata_block ::
  "string list \<Rightarrow> string list \<Rightarrow> dict \<Rightarrow> nat option \<Rightarrow> nat option \<Rightarrow> dict
     \<Rightarrow> py_error + string list" where
  "update_metadata_block required_fields lines metadata block_start block_end updates =
     (let new_block =
            fold (\<lambda>field nb. nb @ [field_line field (dict_get updates field (dict_get metadata field ''''))])
              required_fields [''---\<newline>'', ''# Metadata\<newline>''];
          new_block = new_block @ [''---\<newline>'']
      in case block_end of
           None \<Rightarrow> Inl TypeError
         | Some e \<Rightarrow>
             Inr ((case block_start of None \<Rightarrow> lines | Some b \<Rightarrow> take b lines)
                  @ new_block @ drop (e + 1) lines))"

section \<open>VersionExtractor: \<open>extract_latest_version_from_changelog\<close>\<close>

text \<open>
  \<open>[0-9]+\.[0-9]+\.[0-9]+\<close> at the start of a string: the token and its length. Each run
  of digits is maximal, since what follows a run in the patterns is never a digit.
\<close>

definition version_token :: "string \<Rightarrow> (string \<times> nat) option" where
  "version_token s =
     (let x = takeWhile is_digit s; r1 = dropWhile is_digit s in
      case r1 of
        [] \<Rightarrow> None
      | c1 # t1 \<Rightarrow>
          let y = takeWhile is_digit t1; r2 = dropWhile is_digit t1 in
          (case r2 of
             [] \<Rightarrow> None
           | c2 # t2 \<Rightarrow>
               let z = takeWhile is_digit t2 in
               if x \<noteq> [] \<and> c1 = CHR ''.'' \<and> y \<noteq> [] \<and> c2 = CHR ''.'' \<and> z \<noteq> []
               then Some (x @ ''.'' @ y @ ''.'' @ z, length x + length y + length z + 2)
               else None))"

text \<open>
  A pattern \<open>LEAD([0-9]+\.[0-9]+\.[0-9]+)TRAIL\<close> with literal text on both sides, matched
  at the start of a string: the group and the length of the match.
\<close>

definition version_pattern :: "string \<Rightarrow> string \<Rightarrow> string \<Rightarrow> (string \<times> nat) option" where
  "version_pattern lead trail s =
     (if prefix lead s then
        (case version_token (drop (length lead) s) of
           None \<Rightarrow> None
         | Some (tok, n) \<Rightarrow>
             if prefix trail (drop (length lead + n) s)
             then Some (tok, length lead + n + length trail) else None)
      else None)"

text \<open>
  \<open>re.findall(pattern, content)\<close> for a pattern with one group: the matches from left to
  right, the search going on where the last match ended (one character further after an
  empty match).
\<close>

function findall :: "(string \<Rightarrow> (string \<times> nat) option) \<Rightarrow> string \<Rightarrow> string list" where
  "findall m [] = []"
| "findall m (c # cs) =
     (case m (c # cs) of
        None \<Rightarrow> findall m cs
      | Some (g, n) \<Rightarrow> g # findall m (drop (max n 1) (c # cs)))"
  by pat_completeness auto
termination
  by (relation "measure (\<lambda>(m, s). length s)") auto

text \<open>The three patterns of the source, in its order: \<open>## [1.0.0]\<close>, \<open>[1.0.0]\<close>, \<open>## 1.0.0\<close>.\<close>

definition version_patterns :: "(string \<Rightarrow> (string \<times> nat) option) list" where
  "version_patterns =
     [version_pattern ''## ['' '']'', version_pattern ''['' '']'', version_pattern ''## '' '''']"

definition all_versions :: "string \<Rightarrow> string list" where
  "all_versions content = concat (map (\<lambda>pattern. findall pattern content) version_patterns)"

text \<open>\<open>s.split(sep)\<close> with a separator of one character.\<close>

fun split_char :: "char \<Rightarrow> string \<Rightarrow> string list" where
  "split_char sep [] = [[]]"
| "split_char sep (c # cs) =
     (if c = sep then [] # split_char sep cs
      else (case split_char sep cs of w # ws \<Rightarrow> (c # w) # ws | [] \<Rightarrow> [[c]]))"

text \<open>
  \<open>int(s)\<close> on a run of digits. The interpreter refuses to convert a string of more
  digits than \<open>sys.get_int_max_str_digits()\<close> and raises \<open>ValueError\<close>: the limit is 4300
  unless the interpreter is configured otherwise, and 0 when there is none (as on
  interpreters that predate it). The test is made only for more than 640 digits, and
  leading zeros count. The limit is the first argument; \<open>None\<close> stands for \<open>ValueError\<close>.
\<close>

definition py_int :: "nat \<Rightarrow> string \<Rightarrow> nat option" where
  "py_int max_str_digits s =
     (if 640 < length s \<and> 0 < max_str_digits \<and> max_str_digits < length s then None
      else Some (int_of_digits s))"

text \<open>
  \<open>tuple(map(int, version.split('.')))\<close>, which raises when one of the conversions does,
  and the order \<open><\<close> of Python on tuples of integers.
\<close>

definition version_key :: "nat \<Rightarrow> string \<Rightarrow> nat list option" where
  "version_key max_str_digits version =
     those (map (py_int max_str_digits) (split_char CHR ''.'' version))"

fun tuple_less :: "nat list \<Rightarrow> nat list \<Rightarrow> bool" where
  "tuple_less [] [] = False"
| "tuple_less [] (y # ys) = True"
| "tuple_less (x # xs) [] = False"
| "tuple_less (x # xs) (y # ys) = (x < y \<or> (x = y \<and> tuple_less xs ys))"

text \<open>
  \<open>max(xs, key=key)\<close> on a non-empty list. The key of every item is computed, the first
  item included, and an item replaces the best one so far when its key is greater. An
  exception of the key function ends the loop: the result is \<open>None\<close>.
\<close>

fun max_key_loop ::
  "('a \<Rightarrow> nat list option) \<Rightarrow> 'a list \<Rightarrow> 'a \<times> nat list \<Rightarrow> ('a \<times> nat list) option" where
  "max_key_loop key [] (maxitem, maxval) = Some (maxitem, maxval)"
| "max_key_loop key (item # rest) (maxitem, maxval) =
     (case key item of
        None \<Rightarrow> None
      | Some v \<Rightarrow>
          max_key_loop key rest (if tuple_less maxval v then (item, v) else (maxitem, maxval)))"

definition max_by_key :: "('a \<Rightarrow> nat list option) \<Rightarrow> 'a \<Rightarrow> 'a list \<Rightarrow> 'a option" where
  "max_by_key key x xs =
     (case key x of
        None \<Rightarrow> None
      | Some v \<Rightarrow> map_option fst (max_key_loop key xs (x, v)))"

text \<open>
  The function on the text of the file. A \<open>ValueError\<close> of \<open>max\<close> is caught by the
  \<open>except Exception\<close> of the function, which returns \<open>None\<close>.
\<close>

definition extract_latest_version_from_changelog :: "nat \<Rightarrow> string \<Rightarrow> string option" where
  "extract_latest_version_from_changelog max_str_digits content =
     (case all_versions content of
        [] \<Rightarrow> None
      | v # vs \<Rightarrow>
          (case max_by_key (version_key max_str_digits) v vs of
             None \<Rightarrow> None
           | Some latest_version \<Rightarrow> Some latest_version))"

section \<open>ChangelogLocator: \<open>extract_changelog_section_from_file\<close>\<close>

text \<open>
  \<open>re.IGNORECASE\<close> on the letters of the three heading words: below code point 256 only
  the other case of the same ASCII letter matches.
\<close>

definition ascii_lower :: "char \<Rightarrow> char" where
  "ascii_lower c =
     (if 65 \<le> (of_char c :: nat) \<and> (of_char c :: nat) \<le> 90 then char_of ((of_char c :: nat) + 32) else c)"

definition is_hash :: "char \<Rightarrow> bool" where
  "is_hash c = (c = CHR ''#'')"

definition is_blank :: "char \<Rightarrow> bool" where
  "is_blank c = (c = CHR '' '')"

text \<open>
  \<open>re.match(r'^#{lo,hi} +WORD *$', s, re.IGNORECASE)\<close>: \<open>lo\<close> to \<open>hi\<close> hashes and no
  further hash, at least one blank, the word in any case, blanks up to the end of the
  string or up to a newline that ends it.
\<close>

definition heading_match :: "nat \<Rightarrow> nat \<Rightarrow> string \<Rightarrow> string \<Rightarrow> bool" where
  "heading_match lo hi word s =
     (let hashes = takeWhile is_hash s;
          r = dropWhile is_hash s;
          blanks = takeWhile is_blank r;
          r2 = dropWhile is_blank r;
          tail = dropWhile is_blank (drop (length word) r2)
      in lo \<le> length hashes \<and> length hashes \<le> hi \<and> blanks \<noteq> []
         \<and> map ascii_lower (take (length word) r2) = map ascii_lower word
         \<and> (tail = [] \<or> tail = ''\<newline>''))"

text \<open>The three tests of the first loop, on the stripped line.\<close>

definition is_changelog_heading :: "string \<Rightarrow> bool" where
  "is_changelog_heading line =
     (heading_match 1 4 ''Changelog'' (strip line)
      \<or> heading_match 2 2 ''History'' (strip line)
      \<or> heading_match 2 2 ''Version History'' (strip line))"

text \<open>The first loop: the index of the first heading line, \<open>None\<close> when the loop ends without \<open>break\<close>.\<close>

fun find_changelog_start :: "nat \<Rightarrow> string list \<Rightarrow> nat option" where
  "find_changelog_start i [] = None"
| "find_changelog_start i (line # rest) =
     (if is_changelog_heading line then Some i else find_changelog_start (Suc i) rest)"

text \<open>
  \<open>re.match(r'^#{1,2} +[^\[]', line)\<close>: one or two hashes and no third, blanks, and a
  character other than \<open>[\<close>; when the blanks run into \<open>[\<close> or into the end of the line,
  the last of two or more blanks is that character.
\<close>

definition top_heading :: "string \<Rightarrow> bool" where
  "top_heading line =
     (let hashes = takeWhile is_hash line;
          r = dropWhile is_hash line;
          blanks = takeWhile is_blank r;
          r2 = dropWhile is_blank r
      in 1 \<le> length hashes \<and> length hashes \<le> 2 \<and> blanks \<noteq> []
         \<and> ((case r2 of [] \<Rightarrow> False | c # _ \<Rightarrow> c \<noteq> CHR ''['') \<or> 2 \<le> length blanks))"

text \<open>\<open>re.match(r'^## +\[', line)\<close>.\<close>

definition version_heading :: "string \<Rightarrow> bool" where
  "version_heading line =
     (prefix ''##'' line \<and> takeWhile is_blank (drop 2 line) \<noteq> []
      \<and> (case dropWhile is_blank (drop 2 line) of [] \<Rightarrow> False | c # _ \<Rightarrow> c = CHR ''[''))"

definition section_end :: "string \<Rightarrow> bool" where
  "section_end line = (top_heading line \<and> \<not> version_heading line)"

text \<open>\<open>line.rstrip('\n')\<close> and \<open>'\n'.join(xs)\<close>.\<close>

definition rstrip_newline :: "string \<Rightarrow> string" where
  "rstrip_newline s = rev (dropWhile (\<lambda>c. c = CHR 0x0A) (rev s))"

fun join_newline :: "string list \<Rightarrow> string" where
  "join_newline [] = []"
| "join_newline [x] = x"
| "join_newline (x # y # xs) = x @ ''\<newline>'' @ join_newline (y # xs)"

text \<open>The second loop, with the list it appends to.\<close>

fun collect_section :: "string list \<Rightarrow> string list \<Rightarrow> string list" where
  "collect_section [] changelog_lines = changelog_lines"
| "collect_section (line # rest) changelog_lines =
     (if section_end line then changelog_lines
      else collect_section rest (changelog_lines @ [rstrip_newline line]))"

text \<open>The function on the lines \<open>f.readlines()\<close> returned.\<close>

definition extract_changelog_section_from_file :: "string list \<Rightarrow> string option" where
  "extract_changelog_section_from_file lines =
     (case find_changelog_start 0 lines of
        None \<Rightarrow> None
      | Some changelog_start \<Rightarrow>
          Some (strip (join_newline (collect_section (drop (changelog_start + 1) lines) []))))"

section \<open>ConsistencyChecker: \<open>check_changelog_consistency\<close>\<close>

text \<open>
  The function reads three things from the file system before it decides:
  \<open>preference\<close>, the result of \<open>determine_changelog_preference\<close>; the text of the separate
  changelog file (\<open>None\<close> when \<open>find_changelog_file\<close> finds none or it cannot be read);
  and \<open>embedded_changelog_content\<close>, the result of \<open>extract_changelog_section_from_file\<close>.
  The model takes the three as arguments, after the interpreter's limit for \<open>int\<close> that
  the version extractor depends on. The truth value of an optional string in an \<open>if\<close>
  is \<open>truthy\<close>: neither \<open>None\<close> nor empty.
\<close>

definition truthy :: "string option \<Rightarrow> bool" where
  "truthy v = (case v of None \<Rightarrow> False | Some s \<Rightarrow> s \<noteq> [])"

definition separate_version_of :: "nat \<Rightarrow> string option \<Rightarrow> string option" where
  "separate_version_of max_str_digits separate_changelog =
     (case separate_changelog of
        None \<Rightarrow> None
      | Some content \<Rightarrow> extract_latest_version_from_changelog max_str_digits content)"

definition embedded_version_of :: "nat \<Rightarrow> string option \<Rightarrow> string option" where
  "embedded_version_of max_str_digits embedded_changelog_content =
     (case embedded_changelog_content of
        None \<Rightarrow> None
      | Some content \<Rightarrow>
          if content \<noteq> []
          then extract_latest_version_from_changelog max_str_digits content else None)"

definition check_changelog_consistency ::
  "nat \<Rightarrow> string \<Rightarrow> string \<Rightarrow> string option \<Rightarrow> string option \<Rightarrow> bool" where
  "check_changelog_consistency max_str_digits metadata_version preference separate_changelog
       embedded_changelog_content =
     (let separate_version = separate_version_of max_str_digits separate_changelog;
          embedded_version = embedded_version_of max_str_digits embedded_changelog_content
      in if preference = ''separate'' then
           (if truthy separate_version then
              (if Some metadata_version \<noteq> separate_version then False else True)
            else True)
         else if preference = ''embedded'' then
           (if truthy embedded_version then
              (if Some metadata_version \<noteq> embedded_version then False else True)
            else True)
         else
           (let mismatches =
                  (case separate_version of
                     Some v \<Rightarrow>
                       if truthy separate_version \<and> metadata_version \<noteq> v
                       then [''Separate changelog: '' @ v] else []
                   | None \<Rightarrow> [])
                  @ (case embedded_version of
                       Some v \<Rightarrow>
                         if truthy embedded_version \<and> metadata_version \<noteq> v
                         then [''Embedded changelog: '' @ v] else []
                     | None \<Rightarrow> [])
            in if mismatches \<noteq> [] then False
               else if truthy separate_version \<or> truthy embedded_version then True
               else True))"

section \<open>\<open>normalize_changelog_dates\<close>\<close>

text \<open>
  The function compares the triple \<open>normalize_date_format\<close> returns with a string and
  formats it into the replacement, so the values of Python that occur are modelled with
  their truth value, their inequality and their \<open>str\<close>.
\<close>

datatype py_value = PyStr string | PyTuple "string option \<times> bool \<times> string option"

fun py_truthy :: "py_value \<Rightarrow> bool" where
  "py_truthy (PyStr s) = (s \<noteq> [])"
| "py_truthy (PyTuple t) = True"

text \<open>\<open>a != b\<close>: a tuple and a string are never equal.\<close>

definition py_ne :: "py_value \<Rightarrow> py_value \<Rightarrow> bool" where
  "py_ne a b = (a \<noteq> b)"

text \<open>
  \<open>repr\<close> of a string: in single quotes, or in double quotes when the string has a single
  quote and no double quote; backslash and the quote are escaped, tab, newline and
  carriage return are written \<open>\t\<close>, \<open>\n\<close>, \<open>\r\<close>, and the characters that are not printable
  are written \<open>\xNN\<close>.
\<close>

definition hex_digit :: "nat \<Rightarrow> char" where
  "hex_digit k = ''0123456789abcdef'' ! (k mod 16)"

definition printable :: "char \<Rightarrow> bool" where
  "printable c =
     (let n = (of_char c :: nat) in
      32 \<le> n \<and> n \<noteq> 127 \<and> \<not> (128 \<le> n \<and> n \<le> 160) \<and> n \<noteq> 173)"

definition repr_char :: "char \<Rightarrow> char \<Rightarrow> string" where
  "repr_char quote c =
     (if c = quote \<or> c = CHR 0x5C then [CHR 0x5C, c]
      else if c = CHR 0x09 then [CHR 0x5C, CHR ''t'']
      else if c = CHR 0x0A then [CHR 0x5C, CHR ''n'']
      else if c = CHR 0x0D then [CHR 0x5C, CHR ''r'']
      else if printable c then [c]
      else [CHR 0x5C, CHR ''x'', hex_digit ((of_char c :: nat) div 16), hex_digit (of_char c :: nat)])"

definition py_repr :: "string \<Rightarrow> string" where
  "py_repr s =
     (let quote = (if CHR 0x27 \<in> set s \<and> CHR 0x22 \<notin> set s then CHR 0x22 else CHR 0x27)
      in quote # concat (map (repr_char quote) s) @ [quote])"

definition repr_opt :: "string option \<Rightarrow> string" where
  "repr_opt v = (case v of None \<Rightarrow> ''None'' | Some s \<Rightarrow> py_repr s)"

definition repr_bool :: "bool \<Rightarrow> string" where
  "repr_bool b = (if b then ''True'' else ''False'')"

fun py_str :: "py_value \<Rightarrow> string" where
  "py_str (PyStr s) = s"
| "py_str (PyTuple (a, b, c)) = ''('' @ repr_opt a @ '', '' @ repr_bool b @ '', '' @ repr_opt c @ '')''"

text \<open>
  \<open>(## \[[0-9]+\.[0-9]+\.[0-9]+\] - )(.*)\<close> at the start of a string: the two groups. The
  second is the rest of the line.
\<close>

definition date_heading :: "string \<Rightarrow> (string \<times> string) option" where
  "date_heading s =
     (case version_pattern ''## ['' ''] - '' s of
        None \<Rightarrow> None
      | Some (tok, n) \<Rightarrow> Some (take n s, takeWhile not_newline (drop n s)))"

text \<open>
  The inner function \<open>replacer\<close>, with the \<open>nonlocal\<close> flag passed in and returned: the
  new flag and the replacement text.
\<close>

definition replacer :: "bool \<Rightarrow> string \<Rightarrow> string \<Rightarrow> bool \<times> string" where
  "replacer changes_made pre date_str =
     (let original_date = strip date_str;
          normalized = PyTuple (normalize_date_format original_date)
      in if py_truthy normalized \<and> py_ne normalized (PyStr original_date)
         then (True, pre @ py_str normalized)
         else (changes_made, pre @ date_str))"

text \<open>
  \<open>re.sub(pattern, replacer, content)\<close>: the text is scanned from left to right, a match
  is replaced and the scan goes on behind it, any other character is copied.
\<close>

function sub_dates :: "bool \<Rightarrow> string \<Rightarrow> bool \<times> string" where
  "sub_dates changes_made [] = (changes_made, [])"
| "sub_dates changes_made (c # cs) =
     (case date_heading (c # cs) of
        None \<Rightarrow> (case sub_dates changes_made cs of (ch, out) \<Rightarrow> (ch, c # out))
      | Some (pre, date_str) \<Rightarrow>
          (case sub_dates (fst (replacer changes_made pre date_str))
                  (drop (max (length pre + length date_str) 1) (c # cs)) of
             (ch, out) \<Rightarrow> (ch, snd (replacer changes_made pre date_str) @ out)))"
  by pat_completeness auto
termination
  by (relation "measure (\<lambda>(ch, s). length s)") auto

text \<open>
  The result is the flag the function returns and the text it writes back when
  \<open>auto_fix\<close> is set.
\<close>

definition normalize_changelog_dates :: "string \<Rightarrow> bool \<times> string" where
  "normalize_changelog_dates content = sub_dates False content"

section \<open>Notions used to state the properties\<close>

text \<open>
  A string of the shape \<open>YYYY-MM-DD\<close> is a date of the calendar when its month is
  1 to 12 and its day is 1 to the number of days of that month in that year.
\<close>

definition valid_calendar_date :: "string \<Rightarrow> bool" where
  "valid_calendar_date s =
     (case num3 (4, 4) CHR ''-'' (2, 2) (2, 2) s of
        None \<Rightarrow> False
      | Some (y, m, d) \<Rightarrow>
          1 \<le> int_of_digits m \<and> int_of_digits m \<le> 12 \<and> 1 \<le> int_of_digits d
          \<and> int_of_digits d \<le> days_in_month (int_of_digits y) (int_of_digits m))"

text \<open>
  A string has a supported shape when it matches the ISO pattern or the regular
  expression of some entry of the pattern list.
\<close>

definition matches_supported_shape :: "string \<Rightarrow> bool" where
  "matches_supported_shape s =
     (iso_fullmatch s \<or> list_ex (\<lambda>(p, m, f). m s \<noteq> None) patterns)"

text \<open>An entry of the pattern list is well shaped when every result of its formatter matches the ISO pattern.\<close>

definition shape_ok :: "pattern \<Rightarrow> bool" where
  "shape_ok pt = (case pt of (p, m, f) \<Rightarrow> \<forall>s g. m s = Some g \<longrightarrow> iso_fullmatch (f g))"

text \<open>
  The integer triple \<open>(X, Y, Z)\<close> of a token \<open>X.Y.Z\<close>, read off the token directly, and
  the numeric order on triples, component by component from the left.
\<close>

definition version_triple :: "string \<Rightarrow> nat \<times> nat \<times> nat" where
  "version_triple v =
     (let x = takeWhile is_digit v;
          r = drop (length x + 1) v;
          y = takeWhile is_digit r;
          z = drop (length y + 1) r
      in (int_of_digits x, int_of_digits y, int_of_digits z))"

fun triple_le :: "nat \<times> nat \<times> nat \<Rightarrow> nat \<times> nat \<times> nat \<Rightarrow> bool" where
  "triple_le (a, b, c) (a', b', c') = (a < a' \<or> (a = a' \<and> (b < b' \<or> (b = b' \<and> c \<le> c'))))"

text \<open>
  A token is over the limit of the interpreter when one of its components has more
  digits than the limit in force allows \<open>int\<close> to convert.
\<close>

definition over_limit :: "nat \<Rightarrow> string \<Rightarrow> bool" where
  "over_limit max_str_digits t =
     list_ex (\<lambda>c. 640 < length c \<and> 0 < max_str_digits \<and> max_str_digits < length c)
       (split_char CHR ''.'' t)"

text \<open>
  A changelog heading in the words of the specification: level 1 to 4, any case, the
  text one of the three words.
\<close>

definition spec_changelog_heading :: "string \<Rightarrow> bool" where
  "spec_changelog_heading line =
     (heading_match 1 4 ''Changelog'' (strip line)
      \<or> heading_match 1 4 ''History'' (strip line)
      \<or> heading_match 1 4 ''Version History'' (strip line))"

text \<open>A text contains a dated version heading when the heading pattern matches at some position.\<close>

fun contains_date_heading :: "string \<Rightarrow> bool" where
  "contains_date_heading [] = False"
| "contains_date_heading (c # cs) = (date_heading (c # cs) \<noteq> None \<or> contains_date_heading cs)"

section \<open>Properties of \<open>normalize_date_format\<close>\<close>

subsection \<open>The matchers and the formatters\<close>

lemma all_digits_set: "all_digits s = (\<forall>c \<in> set s. is_digit c)"
  by (simp add: all_digits_def list_all_iff)

lemma num3_SomeD:
  assumes "num3 b1 sep b2 b3 s = Some (g1, g2, g3)"
  shows "in_range b1 g1 \<and> in_range b2 g2 \<and> in_range b3 g3 \<and> s = g1 @ sep # g2 @ sep # g3"
proof -
  have s: "s = takeWhile is_digit s @ dropWhile is_digit s" by simp
  from assms obtain t1 where r1: "dropWhile is_digit s = sep # t1" and g1: "g1 = takeWhile is_digit s"
    and rest: "dropWhile is_digit t1 = sep # g3" and g2: "g2 = takeWhile is_digit t1"
    and rng: "in_range b1 g1 \<and> in_range b2 g2 \<and> in_range b3 g3"
    by (auto simp: num3_def Let_def split: list.splits if_splits)
  have t1: "t1 = takeWhile is_digit t1 @ dropWhile is_digit t1" by simp
  from s r1 g1 have "s = g1 @ sep # t1" by simp
  moreover from t1 rest g2 have "t1 = g2 @ sep # g3" by simp
  ultimately show ?thesis using rng by simp
qed

lemma num3_intro:
  assumes "in_range b1 g1" "in_range b2 g2" "in_range b3 g3" "\<not> is_digit sep"
  shows "num3 b1 sep b2 b3 (g1 @ sep # g2 @ sep # g3) = Some (g1, g2, g3)"
proof -
  from assms have d1: "\<And>x. x \<in> set g1 \<Longrightarrow> is_digit x" and d2: "\<And>x. x \<in> set g2 \<Longrightarrow> is_digit x"
    by (auto simp: in_range_def all_digits_set)
  have a: "takeWhile is_digit (g1 @ sep # g2 @ sep # g3) = g1"
    using d1 assms(4) by simp
  have b: "dropWhile is_digit (g1 @ sep # g2 @ sep # g3) = sep # g2 @ sep # g3"
    using d1 assms(4) by simp
  have c: "takeWhile is_digit (g2 @ sep # g3) = g2"
    using d2 assms(4) by simp
  have d: "dropWhile is_digit (g2 @ sep # g3) = sep # g3"
    using d2 assms(4) by simp
  show ?thesis using assms(1-3) by (simp add: num3_def a b c d)
qed

lemma not_digit_dash: "\<not> is_digit CHR ''-''"
  by (simp add: is_digit_def)

lemma digit_not_sign: "is_digit c \<Longrightarrow> c \<noteq> CHR ''+'' \<and> c \<noteq> CHR ''-''"
  by (auto simp: is_digit_def)

lemma is_digit_zero: "is_digit CHR ''0''"
  by (simp add: is_digit_def)

lemma zfill_digits:
  assumes "all_digits g" "g \<noteq> []"
  shows "zfill n g = replicate (n - length g) CHR ''0'' @ g"
proof -
  from assms obtain c r where g: "g = c # r" and "is_digit c"
    by (cases g) (auto simp: all_digits_def)
  with digit_not_sign [of c] show ?thesis by (simp add: zfill_def)
qed

lemma zfill2_range:
  assumes "in_range (1, 2) g"
  shows "in_range (2, 2) (zfill 2 g)"
proof -
  from assms have d: "all_digits g" and l: "1 \<le> length g" "length g \<le> 2"
    by (simp_all add: in_range_def)
  from l have ne: "g \<noteq> []" by auto
  have "all_digits (replicate (2 - length g) CHR ''0'' @ g)"
    using d by (auto simp: all_digits_set is_digit_zero)
  moreover have "length (replicate (2 - length g) CHR ''0'' @ g) = 2"
    using l by simp
  ultimately show ?thesis
    by (simp add: zfill_digits [OF d ne] in_range_def)
qed

lemma in_range_20: "in_range (2, 2) g \<Longrightarrow> in_range (4, 4) (CHR ''2'' # CHR ''0'' # g)"
  by (auto simp: in_range_def all_digits_def is_digit_def)

lemma iso_intro:
  assumes "in_range (4, 4) y" "in_range (2, 2) m" "in_range (2, 2) d"
  shows "iso_fullmatch (y @ CHR ''-'' # m @ CHR ''-'' # d)"
  using num3_intro [OF assms not_digit_dash] by (simp add: iso_fullmatch_def)

lemma iso_intro20:
  assumes "in_range (2, 2) y" "in_range (2, 2) m" "in_range (2, 2) d"
  shows "iso_fullmatch (CHR ''2'' # CHR ''0'' # y @ CHR ''-'' # m @ CHR ''-'' # d)"
  using iso_intro [OF in_range_20 [OF assms(1)] assms(2,3)] by simp

lemma digit_char_digit: "k < 10 \<Longrightarrow> is_digit (digit_char k)"
proof -
  assume "k < 10"
  then have "k \<in> set [0..<10]" by simp
  moreover have "\<forall>j \<in> set [0..<10]. is_digit (digit_char j)" by code_simp
  ultimately show ?thesis by blast
qed

lemma str_of_nat_range: "n < 100 \<Longrightarrow> in_range (1, 2) (str_of_nat n)"
proof -
  assume n: "n < 100"
  show ?thesis
  proof (cases "n < 10")
    case True
    then show ?thesis by (simp add: in_range_def all_digits_def digit_char_digit)
  next
    case False
    with n have "n div 10 < 10" "n mod 10 < 10" by arith+
    with False show ?thesis
      by (simp add: in_range_def all_digits_def digit_char_digit)
  qed
qed

lemma index_of_le: "index_of xs x \<le> length xs"
  by (induction xs) auto

lemma month_number_range: "length names \<le> 12 \<Longrightarrow> in_range (2, 2) (month_number names g)"
proof -
  assume "length names \<le> 12"
  with index_of_le [of names g] have "index_of names g + 1 < 100" by arith
  then show ?thesis unfolding month_number_def by (intro zfill2_range str_of_nat_range)
qed

lemma day_year_tail_SomeD: "day_year_tail r = Some (d, y) \<Longrightarrow> in_range (1, 2) d \<and> in_range (4, 4) y"
  by (auto simp: day_year_tail_def Let_def split: if_splits)

lemma month_day_year_SomeD:
  "month_day_year names s = Some (n, d, y) \<Longrightarrow> in_range (1, 2) d \<and> in_range (4, 4) y"
  by (induction names) (auto split: if_splits option.splits dest: day_year_tail_SomeD)

lemma name_year_SomeD: "name_year names r = Some (n, y) \<Longrightarrow> in_range (4, 4) y"
  by (induction names) (auto split: if_splits)

lemma day_month_year_SomeD:
  "day_month_year names s = Some (d, n, y) \<Longrightarrow> in_range (1, 2) d \<and> in_range (4, 4) y"
  by (auto simp: day_month_year_def Let_def split: list.splits if_splits option.splits dest: name_year_SomeD)

lemma compact3_SomeD:
  "compact3 a b c s = Some (g1, g2, g3) \<Longrightarrow> in_range (a, a) g1 \<and> in_range (b, b) g2 \<and> in_range (c, c) g3"
  by (auto simp: compact3_def in_range_def all_digits_set split: if_splits dest: in_set_takeD in_set_dropD)

lemma shape_mdy4: "shape_ok (p, num3 (1, 2) sep (1, 2) (4, 4), \<lambda>(g1, g2, g3). g3 @ ''-'' @ zfill 2 g1 @ ''-'' @ zfill 2 g2)"
  unfolding shape_ok_def by (auto dest!: num3_SomeD intro!: iso_intro zfill2_range)

lemma shape_mdy2: "shape_ok (p, num3 (1, 2) sep (1, 2) (2, 2), \<lambda>(g1, g2, g3). ''20'' @ g3 @ ''-'' @ zfill 2 g1 @ ''-'' @ zfill 2 g2)"
  unfolding shape_ok_def by (auto dest!: num3_SomeD intro!: iso_intro20 zfill2_range)

lemma shape_dmy4: "shape_ok (p, num3 (1, 2) sep (1, 2) (4, 4), \<lambda>(g1, g2, g3). g3 @ ''-'' @ zfill 2 g2 @ ''-'' @ zfill 2 g1)"
  unfolding shape_ok_def by (auto dest!: num3_SomeD intro!: iso_intro zfill2_range)

lemma shape_dmy2: "shape_ok (p, num3 (1, 2) sep (1, 2) (2, 2), \<lambda>(g1, g2, g3). ''20'' @ g3 @ ''-'' @ zfill 2 g2 @ ''-'' @ zfill 2 g1)"
  unfolding shape_ok_def by (auto dest!: num3_SomeD intro!: iso_intro20 zfill2_range)

lemma shape_ymd4: "shape_ok (p, num3 (4, 4) sep (1, 2) (1, 2), \<lambda>(g1, g2, g3). g1 @ ''-'' @ zfill 2 g2 @ ''-'' @ zfill 2 g3)"
  unfolding shape_ok_def by (auto dest!: num3_SomeD intro!: iso_intro zfill2_range)

lemma shape_ymd2: "shape_ok (p, num3 (2, 2) sep (1, 2) (1, 2), \<lambda>(g1, g2, g3). ''20'' @ g1 @ ''-'' @ zfill 2 g2 @ ''-'' @ zfill 2 g3)"
  unfolding shape_ok_def by (auto dest!: num3_SomeD intro!: iso_intro20 zfill2_range)

lemma shape_compact4: "shape_ok (p, compact3 4 2 2, \<lambda>(g1, g2, g3). g1 @ ''-'' @ g2 @ ''-'' @ g3)"
  unfolding shape_ok_def by (auto dest!: compact3_SomeD intro!: iso_intro)

lemma shape_compact2: "shape_ok (p, compact3 2 2 2, \<lambda>(g1, g2, g3). ''20'' @ g1 @ ''-'' @ g2 @ ''-'' @ g3)"
  unfolding shape_ok_def by (auto dest!: compact3_SomeD intro!: iso_intro20)

lemma shape_month_first:
  "length names \<le> 12 \<Longrightarrow> shape_ok (p, month_day_year names, \<lambda>(g1, g2, g3). g3 @ ''-'' @ month_number names g1 @ ''-'' @ zfill 2 g2)"
  unfolding shape_ok_def by (auto dest!: month_day_year_SomeD intro!: iso_intro zfill2_range month_number_range)

lemma shape_day_first:
  "length names \<le> 12 \<Longrightarrow> shape_ok (p, day_month_year names, \<lambda>(g1, g2, g3). g3 @ ''-'' @ month_number names g2 @ ''-'' @ zfill 2 g1)"
  unfolding shape_ok_def by (auto dest!: day_month_year_SomeD intro!: iso_intro zfill2_range month_number_range)

lemma months_len: "length months_abbr \<le> 12" "length months_full \<le> 12"
  by (simp_all add: months_abbr_def months_full_def)

lemma patterns_shape: "list_all shape_ok patterns"
  by (simp only: patterns_def list.pred_inject shape_mdy4 shape_mdy2 shape_dmy4 shape_dmy2 shape_ymd4
        shape_ymd2 shape_compact4 shape_compact2 shape_month_first [OF months_len(1)]
        shape_month_first [OF months_len(2)] shape_day_first [OF months_len(1)]
        shape_day_first [OF months_len(2)] simp_thms)

subsection \<open>What \<open>strptime\<close> accepts\<close>

lemma try_patterns_SomeD:
  "try_patterns ps s = Some (n, p) \<Longrightarrow> list_all shape_ok ps \<Longrightarrow> strptime_ymd n \<noteq> None \<and> iso_fullmatch n"
proof (induction ps)
  case Nil
  then show ?case by simp
next
  case (Cons a ps)
  obtain p' m f where a: "a = (p', m, f)" by (cases a)
  show ?case
  proof (cases "m s")
    case None
    with Cons a show ?thesis by simp
  next
    case (Some g)
    show ?thesis
    proof (cases "strptime_ymd (f g)")
      case None
      with Cons a Some show ?thesis by simp
    next
      case (Some v)
      with Cons.prems a \<open>m s = Some g\<close> have "n = f g" by simp
      moreover from Cons.prems(2) a \<open>m s = Some g\<close> have "iso_fullmatch (f g)"
        by (cases g) (auto simp: shape_ok_def)
      ultimately show ?thesis using Some by simp
    qed
  qed
qed

lemma try_patterns_None:
  "list_all (\<lambda>(p, m, f). m s = None) ps \<Longrightarrow> try_patterns ps s = None"
  by (induction ps) auto

lemma in_range_exact2: "in_range (2, 2) g \<Longrightarrow> \<exists>a b. g = [a, b] \<and> is_digit a \<and> is_digit b"
  by (cases g; cases "tl g"; cases "tl (tl g)") (auto simp: in_range_def all_digits_def)

lemma in_range_exact4: "in_range (4, 4) g \<Longrightarrow> \<exists>a b c d. g = [a, b, c, d] \<and> is_digit a \<and> is_digit b \<and> is_digit c \<and> is_digit d"
proof -
  assume r: "in_range (4, 4) g"
  then have "length g = 4" by (simp add: in_range_def)
  then obtain a b c d where "g = [a, b, c, d]"
    by (auto simp: length_Suc_conv eval_nat_numeral)
  with r show ?thesis by (auto simp: in_range_def all_digits_def)
qed

lemma strptime_month_2digits:
  assumes "is_digit a" "is_digit b" "strptime_month (a # b # CHR ''-'' # r) = Some (m, r')"
  shows "m = int_of_digits [a, b] \<and> r' = r \<and> 1 \<le> m \<and> m \<le> 12"
proof -
  from assms(2) have nb: "b \<noteq> CHR ''-''" by (auto simp: is_digit_def)
  from assms(3) nb consider
    (t) "a = CHR ''1''" "b \<in> set ''012''" "m = int_of_digits [a, b]" "r' = r"
    | (z) "a = CHR ''0''" "b \<in> set ''123456789''" "m = int_of_digits [a, b]" "r' = r"
    by (auto split: if_splits)
  then show ?thesis
    by cases (auto simp: int_of_digits_def digit_val_def)
qed

lemma strptime_day_2digits:
  assumes "is_digit a" "strptime_day [a, b] = Some (d, [])"
  shows "d = int_of_digits [a, b] \<and> 1 \<le> d"
proof -
  from assms(1) have "a \<noteq> CHR '' ''" by (auto simp: is_digit_def)
  with assms(2) consider
    (a) "a = CHR ''3''" "b \<in> set ''01''" "d = int_of_digits [a, b]"
    | (b) "a \<in> set ''12''" "is_digit b" "d = int_of_digits [a, b]"
    | (c) "a = CHR ''0''" "b \<in> set ''123456789''" "d = int_of_digits [a, b]"
    by (auto split: if_splits)
  then show ?thesis
    by cases (auto simp: int_of_digits_def digit_val_def is_digit_def)
qed

lemma strptime_valid:
  assumes iso: "iso_fullmatch n" and sp: "strptime_ymd n \<noteq> None"
  shows "valid_calendar_date n"
proof -
  from iso obtain y m d where n3: "num3 (4, 4) CHR ''-'' (2, 2) (2, 2) n = Some (y, m, d)"
    by (auto simp: iso_fullmatch_def)
  from num3_SomeD [OF n3] have ry: "in_range (4, 4) y" and rm: "in_range (2, 2) m"
    and rd: "in_range (2, 2) d" and n: "n = y @ CHR ''-'' # m @ CHR ''-'' # d" by simp_all
  from in_range_exact4 [OF ry] obtain y1 y2 y3 y4 where y: "y = [y1, y2, y3, y4]" by blast
  from in_range_exact2 [OF rm] obtain m1 m2 where m: "m = [m1, m2]" "is_digit m1" "is_digit m2" by blast
  from in_range_exact2 [OF rd] obtain d1 d2 where d: "d = [d1, d2]" "is_digit d1" by blast
  from sp obtain mm r' dd r'' where
    pm: "strptime_month (m1 # m2 # CHR ''-'' # [d1, d2]) = Some (mm, r')"
    and pd: "strptime_day r' = Some (dd, r'')" and e: "r'' = []"
    and dim: "dd \<le> days_in_month (int_of_digits y) mm"
    unfolding strptime_ymd_def n y m d
    by (simp add: Let_def split: if_splits option.splits prod.splits)
  from strptime_month_2digits [OF m(2,3) pm]
  have mm: "mm = int_of_digits m" "r' = d" "1 \<le> mm" "mm \<le> 12" by (simp_all add: m d)
  from pd e mm(2) d have "strptime_day [d1, d2] = Some (dd, [])" by simp
  from strptime_day_2digits [OF d(2) this] have dd: "dd = int_of_digits d" "1 \<le> dd" by (simp_all add: d)
  show ?thesis
    unfolding valid_calendar_date_def n3 using mm dd dim by simp
qed

subsection \<open>The claims on the date normalizer\<close>

lemma iso_nonempty: "iso_fullmatch s \<Longrightarrow> s \<noteq> []"
  by (auto simp: iso_fullmatch_def num3_def)

text \<open>
  Claim C2, as amended. Whenever \<open>normalize_date_format\<close> reports a string as changed, or
  reports it with the tag \<open>YYYY-MM-DD\<close> of the already-ISO branch, the string matches
  \<open>YYYY-MM-DD\<close>; and whenever it is reported as changed it is a valid calendar date. The
  already-ISO branch returns its input after the pattern test alone, so nothing is said
  about the calendar there.
\<close>

theorem normalize_date_format_valid:
  assumes "normalize_date_format s = (Some r, ch, tag)" and "ch \<or> tag = Some ''YYYY-MM-DD''"
  shows "iso_fullmatch r \<and> (ch \<longrightarrow> valid_calendar_date r)"
proof (cases "iso_fullmatch s")
  case True
  with assms(1) iso_nonempty [OF True] show ?thesis
    by (simp add: normalize_date_format_def)
next
  case False
  show ?thesis
  proof (cases "try_patterns patterns s")
    case None
    with False assms show ?thesis
      by (auto simp: normalize_date_format_def split: if_splits)
  next
    case (Some np)
    obtain n p where np: "np = (n, p)" by (cases np)
    from try_patterns_SomeD [OF Some [unfolded np] patterns_shape]
    have "strptime_ymd n \<noteq> None" "iso_fullmatch n" by simp_all
    moreover from this have "valid_calendar_date n" by (simp add: strptime_valid)
    moreover from assms(1) False Some np have "r = n"
      by (auto simp: normalize_date_format_def split: if_splits)
    ultimately show ?thesis by simp
  qed
qed

text \<open>
  The theorem at \<open>03/04/2025\<close>, which is changed, and at \<open>2025-01-15\<close>, which is already ISO.
\<close>

theorem normalize_date_format_valid_witness:
  "normalize_date_format ''03/04/2025'' = (Some ''2025-03-04'', True, Some (re_num3 ''1,2'' ''/'' ''1,2'' ''4''))
   \<and> iso_fullmatch ''2025-03-04'' \<and> valid_calendar_date ''2025-03-04''
   \<and> normalize_date_format ''2025-01-15'' = (Some ''2025-01-15'', False, Some ''YYYY-MM-DD'')
   \<and> iso_fullmatch ''2025-01-15''"
proof -
  have h: "normalize_date_format ''03/04/2025'' = (Some ''2025-03-04'', True, Some (re_num3 ''1,2'' ''/'' ''1,2'' ''4''))"
    by code_simp
  have k: "normalize_date_format ''2025-01-15'' = (Some ''2025-01-15'', False, Some ''YYYY-MM-DD'')"
    by code_simp
  from normalize_date_format_valid [OF h] normalize_date_format_valid [OF k]
  show ?thesis using h k by simp
qed

text \<open>
  Claim C2 as stated fails on the already-ISO branch: \<open>2025-02-30\<close> is returned with the
  tag \<open>YYYY-MM-DD\<close> and is no date of the calendar.
\<close>

theorem normalize_date_format_iso_unchecked:
  "normalize_date_format ''2025-02-30'' = (Some ''2025-02-30'', False, Some ''YYYY-MM-DD'')
   \<and> \<not> valid_calendar_date ''2025-02-30''"
  by code_simp

text \<open>
  Claim C9. Whenever \<open>normalize_date_format\<close> returns a string (it does for every input
  but the empty one, so for every input in a supported format), normalizing that string
  returns it again with \<open>changed = False\<close>: with the tag \<open>YYYY-MM-DD\<close> when the first
  call changed the input, and with the tag of the first call otherwise.
\<close>

theorem normalize_date_format_idempotent:
  assumes "normalize_date_format x = (Some r, ch, tag)"
  shows "normalize_date_format r = (Some r, False, if ch then Some ''YYYY-MM-DD'' else tag)"
proof (cases "iso_fullmatch x")
  case True
  with assms iso_nonempty [OF True] show ?thesis
    by (auto simp: normalize_date_format_def)
next
  case False
  show ?thesis
  proof (cases "try_patterns patterns x")
    case None
    with False assms show ?thesis
      by (auto simp: normalize_date_format_def split: if_splits)
  next
    case (Some np)
    obtain n p where np: "np = (n, p)" by (cases np)
    from try_patterns_SomeD [OF Some [unfolded np] patterns_shape]
    have iso: "iso_fullmatch n" by simp
    from assms False Some np have "r = n" "ch"
      by (auto simp: normalize_date_format_def split: if_splits)
    with iso iso_nonempty [OF iso] show ?thesis
      by (simp add: normalize_date_format_def)
  qed
qed

text \<open>
  The theorem at \<open>03/04/25\<close>.
\<close>

theorem normalize_date_format_idempotent_witness:
  "normalize_date_format ''03/04/25'' = (Some ''2025-03-04'', True, Some (re_num3 ''1,2'' ''/'' ''1,2'' ''2''))
   \<and> normalize_date_format ''2025-03-04'' = (Some ''2025-03-04'', False, Some ''YYYY-MM-DD'')"
proof -
  have h: "normalize_date_format ''03/04/25'' = (Some ''2025-03-04'', True, Some (re_num3 ''1,2'' ''/'' ''1,2'' ''2''))"
    by code_simp
  from normalize_date_format_idempotent [OF h] show ?thesis using h by simp
qed

lemma no_shape_patterns:
  "\<not> matches_supported_shape s \<Longrightarrow> list_all (\<lambda>(p, m, f). m s = None) patterns"
  by (fastforce simp: matches_supported_shape_def list_ex_iff list_all_iff)

text \<open>
  Claim C8, as amended. For an input that matches none of the supported shapes the
  function returns a value (it is total: the only exception of the loop, \<open>ValueError\<close>,
  is caught there): the input itself with \<open>changed = False\<close> and the tag \<open>unknown\<close> when
  the input is not empty, and \<open>(None, False, None)\<close> for the empty string, which the
  first test of the function sets apart.
\<close>

theorem normalize_date_format_unknown:
  assumes "\<not> matches_supported_shape s"
  shows "normalize_date_format s =
           (if s = [] then (None, False, None) else (Some s, False, Some ''unknown''))"
proof -
  from assms have "\<not> iso_fullmatch s" by (simp add: matches_supported_shape_def)
  moreover from try_patterns_None [OF no_shape_patterns [OF assms]]
  have "try_patterns patterns s = None" .
  ultimately show ?thesis by (simp add: normalize_date_format_def)
qed

text \<open>
  The theorem at \<open>sometime next week\<close>.
\<close>

theorem normalize_date_format_unknown_witness:
  "\<not> matches_supported_shape ''sometime next week''
   \<and> normalize_date_format ''sometime next week'' = (Some ''sometime next week'', False, Some ''unknown'')"
proof -
  have h: "\<not> matches_supported_shape ''sometime next week''" by code_simp
  from normalize_date_format_unknown [OF h] show ?thesis using h by simp
qed

text \<open>
  Claim C8 as stated fails at the empty string: it matches no supported shape, and the
  result is \<open>(None, False, None)\<close>, not the empty string with the tag \<open>unknown\<close>.
\<close>

theorem normalize_date_format_empty:
  "\<not> matches_supported_shape [] \<and> normalize_date_format [] = (None, False, None)
   \<and> normalize_date_format [] \<noteq> (Some [], False, Some ''unknown'')"
  by code_simp

text \<open>
  Claim C3 as stated fails in the third component: it is not the label \<open>MM/DD/YYYY\<close>.
\<close>

theorem normalize_date_format_tag_not_label:
  "normalize_date_format ''03/04/2025'' \<noteq> (Some ''2025-03-04'', True, Some ''MM/DD/YYYY'')"
  by code_simp

text \<open>
  Claim C3, as amended. For \<open>03/04/2025\<close> the result is \<open>2025-03-04\<close> with
  \<open>changed = True\<close>, and the third component is the text of the regular expression that
  matched, \<open>(\d{1,2})/(\d{1,2})/(\d{4})\<close>. The first and the third entry of the pattern
  list (month first, day first) carry that same text; both match the input, the first
  gives \<open>2025-03-04\<close>, the third would give \<open>2025-04-03\<close>, and the first wins.
\<close>

theorem normalize_date_format_month_first:
  "normalize_date_format ''03/04/2025'' =
     (Some ''2025-03-04'', True,
      Some (''('' @ [CHR 0x5C] @ ''d{1,2})/('' @ [CHR 0x5C] @ ''d{1,2})/('' @ [CHR 0x5C] @ ''d{4})''))
   \<and> map fst (take 3 patterns) =
       [''('' @ [CHR 0x5C] @ ''d{1,2})/('' @ [CHR 0x5C] @ ''d{1,2})/('' @ [CHR 0x5C] @ ''d{4})'',
        ''('' @ [CHR 0x5C] @ ''d{1,2})/('' @ [CHR 0x5C] @ ''d{1,2})/('' @ [CHR 0x5C] @ ''d{2})'',
        ''('' @ [CHR 0x5C] @ ''d{1,2})/('' @ [CHR 0x5C] @ ''d{1,2})/('' @ [CHR 0x5C] @ ''d{4})'']
   \<and> map (\<lambda>(p, m, f). map_option f (m ''03/04/2025'')) (take 3 patterns) =
       [Some ''2025-03-04'', None, Some ''2025-04-03'']"
  by code_simp

section \<open>Properties of \<open>extract_metadata_block\<close>\<close>






section \<open>Properties of \<open>update_metadata_block\<close>\<close>

lemma fold_append_map: "fold (\<lambda>x acc. acc @ [g x]) xs acc = acc @ map g xs"
  by (induction xs arbitrary: acc) auto

lemma update_metadata_block_Inr:
  "update_metadata_block required_fields lines metadata (Some b) (Some e) updates =
     Inr (take b lines @ [''---\<newline>'', ''# Metadata\<newline>'']
          @ map (\<lambda>field. field_line field (dict_get updates field (dict_get metadata field ''''))) required_fields
          @ [''---\<newline>''] @ drop (e + 1) lines)"
  by (simp add: update_metadata_block_def fold_append_map)

text \<open>
  Claim C4. With both block boundaries given, the result is the lines before
  \<open>blockStart\<close>, the new block, and the lines after \<open>blockEnd\<close>, all of them unchanged. The
  new block is the opening marker line, the header line \<open># Metadata\<close>, one line per
  required field in the order of the list, with the value of \<open>updates\<close> when it has the
  field, else the value of \<open>metadata\<close> when it has the field, else the empty string, and
  the closing marker line. What \<open>metadata\<close> holds under other keys has no effect on the
  result: two dictionaries that agree on the required fields give the same lines.
\<close>

theorem update_metadata_block_result:
  assumes "block_start = Some b" and "block_end = Some e"
  shows "update_metadata_block required_fields lines metadata block_start block_end updates =
           Inr (take b lines
                @ [''---\<newline>'', ''# Metadata\<newline>'']
                @ map (\<lambda>field. ''- **'' @ field @ '':** ''
                         @ (case map_of updates field of
                              Some v \<Rightarrow> v
                            | None \<Rightarrow> (case map_of metadata field of Some v \<Rightarrow> v | None \<Rightarrow> ''''))
                         @ ''\<newline>'') required_fields
                @ [''---\<newline>'']
                @ drop (e + 1) lines)
         \<and> (\<forall>metadata'. (\<forall>field \<in> set required_fields. map_of metadata' field = map_of metadata field) \<longrightarrow>
               update_metadata_block required_fields lines metadata' block_start block_end updates =
               update_metadata_block required_fields lines metadata block_start block_end updates)"
proof -
  have frame: "map (\<lambda>field. field_line field (dict_get updates field (dict_get metadata' field ''''))) required_fields
             = map (\<lambda>field. field_line field (dict_get updates field (dict_get metadata field ''''))) required_fields"
    if "\<forall>field \<in> set required_fields. map_of metadata' field = map_of metadata field" for metadata'
  proof (rule map_cong [OF refl])
    fix field assume "field \<in> set required_fields"
    with that have "map_of metadata' field = map_of metadata field" by blast
    then have "dict_get metadata' field [] = dict_get metadata field []"
      by (simp add: dict_get_def)
    then show "field_line field (dict_get updates field (dict_get metadata' field []))
             = field_line field (dict_get updates field (dict_get metadata field []))"
      by (simp only:)
  qed
  have first: "update_metadata_block required_fields lines metadata block_start block_end updates =
           Inr (take b lines
                @ [''---\<newline>'', ''# Metadata\<newline>'']
                @ map (\<lambda>field. ''- **'' @ field @ '':** ''
                         @ (case map_of updates field of
                              Some v \<Rightarrow> v
                            | None \<Rightarrow> (case map_of metadata field of Some v \<Rightarrow> v | None \<Rightarrow> ''''))
                         @ ''\<newline>'') required_fields
                @ [''---\<newline>'']
                @ drop (e + 1) lines)"
    unfolding assms update_metadata_block_Inr
    by (simp add: field_line_def dict_get_def)
  have second: "update_metadata_block required_fields lines metadata' block_start block_end updates =
               update_metadata_block required_fields lines metadata block_start block_end updates"
    if "\<forall>field \<in> set required_fields. map_of metadata' field = map_of metadata field" for metadata'
    unfolding assms update_metadata_block_Inr by (simp only: frame [OF that])
  from first second show ?thesis by blast
qed

text \<open>
  The theorem at the required fields \<open>[A, B]\<close>, the metadata \<open>{A: 1, B: 2, C: 3}\<close> and
  the updates \<open>{B: 9}\<close>: the block has a line for \<open>A\<close> with \<open>1\<close> and a line for \<open>B\<close> with
  \<open>9\<close>, none for \<open>C\<close>, and the metadata without \<open>C\<close> gives the same result.
\<close>

theorem update_metadata_block_result_witness:
  "update_metadata_block [''A'', ''B'']
       [''x\<newline>'', ''---\<newline>'', ''- **A:** 1\<newline>'', ''- **B:** 2\<newline>'', ''- **C:** 3\<newline>'', ''---\<newline>'', ''y\<newline>'']
       [(''A'', ''1''), (''B'', ''2''), (''C'', ''3'')] (Some 1) (Some 5) [(''B'', ''9'')]
     = Inr [''x\<newline>'', ''---\<newline>'', ''# Metadata\<newline>'', ''- **A:** 1\<newline>'', ''- **B:** 9\<newline>'', ''---\<newline>'', ''y\<newline>'']
   \<and> update_metadata_block [''A'', ''B'']
       [''x\<newline>'', ''---\<newline>'', ''- **A:** 1\<newline>'', ''- **B:** 2\<newline>'', ''- **C:** 3\<newline>'', ''---\<newline>'', ''y\<newline>'']
       [(''A'', ''1''), (''B'', ''2'')] (Some 1) (Some 5) [(''B'', ''9'')]
     = Inr [''x\<newline>'', ''---\<newline>'', ''# Metadata\<newline>'', ''- **A:** 1\<newline>'', ''- **B:** 9\<newline>'', ''---\<newline>'', ''y\<newline>'']"
proof -
  have s: "Some (1::nat) = Some 1" and e: "Some (5::nat) = Some 5" by simp_all
  have f: "\<forall>field \<in> set [''A'', ''B'']. map_of [(''A'', ''1''), (''B'', ''2'')] field
             = map_of [(''A'', ''1''), (''B'', ''2''), (''C'', ''3'')] field"
    by simp
  from update_metadata_block_result [OF s e, of "[''A'', ''B'']"
      "[''x\<newline>'', ''---\<newline>'', ''- **A:** 1\<newline>'', ''- **B:** 2\<newline>'', ''- **C:** 3\<newline>'', ''---\<newline>'', ''y\<newline>'']"
      "[(''A'', ''1''), (''B'', ''2''), (''C'', ''3'')]" "[(''B'', ''9'')]"] f
  show ?thesis by simp
qed

section \<open>Properties of \<open>extract_latest_version_from_changelog\<close>\<close>

lemma digits_set: "all_digits s = (\<forall>c \<in> set s. is_digit c)"
  by (simp add: all_digits_def list_all_iff)

lemma not_digit_dot: "\<not> is_digit CHR ''.''"
  by (simp add: is_digit_def)

lemma takeWhile_digits_all: "all_digits (takeWhile is_digit s)"
  by (auto simp: digits_set dest: set_takeWhileD)

text \<open>A token is three non-empty runs of digits with dots between them.\<close>

lemma version_token_shape:
  assumes "version_token s = Some (tok, n)"
  shows "\<exists>x y z. tok = x @ CHR ''.'' # y @ CHR ''.'' # z \<and> all_digits x \<and> x \<noteq> []
                 \<and> all_digits y \<and> y \<noteq> [] \<and> all_digits z \<and> z \<noteq> []"
proof -
  from assms obtain t1 t2 where
    "tok = takeWhile is_digit s @ CHR ''.'' # takeWhile is_digit t1 @ CHR ''.'' # takeWhile is_digit t2"
    "takeWhile is_digit s \<noteq> []" "takeWhile is_digit t1 \<noteq> []" "takeWhile is_digit t2 \<noteq> []"
    by (auto simp: version_token_def Let_def split: list.splits if_splits)
  then show ?thesis using takeWhile_digits_all by blast
qed

lemma version_pattern_shape:
  assumes "version_pattern lead trail s = Some (tok, n)"
  shows "\<exists>x y z. tok = x @ CHR ''.'' # y @ CHR ''.'' # z \<and> all_digits x \<and> x \<noteq> []
                 \<and> all_digits y \<and> y \<noteq> [] \<and> all_digits z \<and> z \<noteq> []"
proof -
  from assms obtain k where "version_token (drop (length lead) s) = Some (tok, k)"
    by (auto simp: version_pattern_def split: if_splits option.splits)
  then show ?thesis by (rule version_token_shape)
qed

lemma findall_matches:
  "t \<in> set (findall m s) \<Longrightarrow> \<exists>s' n. m s' = Some (t, n)"
proof (induction m s rule: findall.induct)
  case (1 m)
  then show ?case by simp
next
  case (2 m c cs)
  show ?case
  proof (cases "m (c # cs)")
    case None
    with 2 show ?thesis by simp
  next
    case (Some gn)
    obtain g n where gn: "gn = (g, n)" by (cases gn)
    from 2(3) Some gn have "t = g \<or> t \<in> set (findall m (drop (max n 1) (c # cs)))" by simp
    then show ?thesis
    proof
      assume "t = g"
      with Some gn show ?thesis by blast
    next
      assume "t \<in> set (findall m (drop (max n 1) (c # cs)))"
      from 2(2) [OF Some gn [symmetric] this] show ?thesis .
    qed
  qed
qed

lemma all_versions_shape:
  assumes "t \<in> set (all_versions content)"
  shows "\<exists>x y z. t = x @ CHR ''.'' # y @ CHR ''.'' # z \<and> all_digits x \<and> x \<noteq> []
                 \<and> all_digits y \<and> y \<noteq> [] \<and> all_digits z \<and> z \<noteq> []"
proof -
  from assms obtain m where m: "m \<in> set version_patterns" and t: "t \<in> set (findall m content)"
    by (auto simp: all_versions_def)
  from findall_matches [OF t] obtain s' n where "m s' = Some (t, n)" by blast
  with m show ?thesis
    by (auto simp: version_patterns_def dest: version_pattern_shape)
qed

lemma split_char_digits_dot:
  "all_digits x \<Longrightarrow> split_char CHR ''.'' (x @ CHR ''.'' # r) = x # split_char CHR ''.'' r"
proof (induction x)
  case Nil
  then show ?case by simp
next
  case (Cons c x)
  then have "c \<noteq> CHR ''.''" using not_digit_dot by (auto simp: all_digits_def)
  with Cons show ?case by (simp add: all_digits_def)
qed

lemma split_char_digits: "all_digits z \<Longrightarrow> split_char CHR ''.'' z = [z]"
proof (induction z)
  case Nil
  then show ?case by simp
next
  case (Cons c z)
  then have "c \<noteq> CHR ''.''" using not_digit_dot by (auto simp: all_digits_def)
  with Cons show ?case by (simp add: all_digits_def)
qed

lemma those_map_None: "(those (map f xs) = None) = (\<exists>x \<in> set xs. f x = None)"
  by (induction xs) (auto split: option.splits)

lemma those_map_Some: "those (map f xs) = Some ys \<Longrightarrow> map Some ys = map f xs"
  by (induction xs arbitrary: ys) (auto split: option.splits)

lemma py_int_None:
  "(py_int max_str_digits c = None)
     = (640 < length c \<and> 0 < max_str_digits \<and> max_str_digits < length c)"
  by (simp add: py_int_def)

lemma py_int_Some: "py_int max_str_digits c = Some n \<Longrightarrow> n = int_of_digits c"
  by (simp add: py_int_def split: if_splits)

lemma version_key_None: "(version_key max_str_digits t = None) = over_limit max_str_digits t"
  by (simp add: version_key_def over_limit_def those_map_None py_int_None list_ex_iff)

lemma version_key_token:
  assumes "all_digits x" "all_digits y" "all_digits z"
    and "version_key max_str_digits (x @ CHR ''.'' # y @ CHR ''.'' # z) = Some k"
  shows "k = [int_of_digits x, int_of_digits y, int_of_digits z]"
proof -
  have sp: "split_char CHR ''.'' (x @ CHR ''.'' # y @ CHR ''.'' # z) = [x, y, z]"
    using assms(1-3) by (simp add: split_char_digits_dot split_char_digits)
  from assms(4) have "map Some k = map (py_int max_str_digits) [x, y, z]"
    unfolding version_key_def sp by (rule those_map_Some)
  then obtain a b c where k: "k = [a, b, c]" and "py_int max_str_digits x = Some a"
    "py_int max_str_digits y = Some b" "py_int max_str_digits z = Some c"
    by (cases k; cases "tl k"; cases "tl (tl k)") auto
  then show ?thesis by (auto dest: py_int_Some)
qed

lemma version_triple_token:
  assumes "all_digits x" "all_digits y" "all_digits z"
  shows "version_triple (x @ CHR ''.'' # y @ CHR ''.'' # z) = (int_of_digits x, int_of_digits y, int_of_digits z)"
proof -
  from assms have dx: "\<And>c. c \<in> set x \<Longrightarrow> is_digit c" and dy: "\<And>c. c \<in> set y \<Longrightarrow> is_digit c"
    by (auto simp: digits_set)
  have a: "takeWhile is_digit (x @ CHR ''.'' # y @ CHR ''.'' # z) = x"
    using dx not_digit_dot by simp
  have b: "takeWhile is_digit (y @ CHR ''.'' # z) = y"
    using dy not_digit_dot by simp
  show ?thesis by (simp add: version_triple_def a b)
qed

lemma tuple_less_irrefl: "\<not> tuple_less xs xs"
  by (induction xs) auto

lemma tuple_less_trans: "tuple_less xs ys \<Longrightarrow> tuple_less ys zs \<Longrightarrow> tuple_less xs zs"
proof (induction xs ys arbitrary: zs rule: tuple_less.induct)
  case 1
  then show ?case by simp
next
  case (2 y ys)
  then show ?case by (cases zs) auto
next
  case (3 x xs)
  then show ?case by simp
next
  case (4 x xs y ys)
  then show ?case by (cases zs) auto
qed

text \<open>The loop of \<open>max\<close> fails exactly when the key of some item does.\<close>

lemma max_key_loop_None:
  "(max_key_loop key xs st = None) = (\<exists>t \<in> set xs. key t = None)"
proof (induction xs arbitrary: st)
  case Nil
  then show ?case by (cases st) simp
next
  case (Cons a xs)
  obtain b bk where st: "st = (b, bk)" by (cases st)
  show ?case
  proof (cases "key a")
    case None
    then show ?thesis by (simp add: st)
  next
    case (Some v)
    with Cons [of "if tuple_less bk v then (a, v) else (b, bk)"] show ?thesis
      by (simp add: st)
  qed
qed

text \<open>When it succeeds, it returns an item whose key no key of an item exceeds.\<close>

lemma max_key_loop_Some:
  assumes "max_key_loop key xs (b, bk) = Some (r, rk)"
    and "key b = Some bk" and "b \<in> S"
    and "\<forall>t \<in> S. \<forall>k. key t = Some k \<longrightarrow> \<not> tuple_less bk k"
  shows "r \<in> S \<union> set xs \<and> key r = Some rk
         \<and> (\<forall>t \<in> S \<union> set xs. \<forall>k. key t = Some k \<longrightarrow> \<not> tuple_less rk k)"
  using assms
proof (induction xs arbitrary: b bk S)
  case Nil
  then show ?case by simp
next
  case (Cons a xs)
  from Cons.prems(1) obtain v where v: "key a = Some v"
    by (cases "key a") simp_all
  show ?case
  proof (cases "tuple_less bk v")
    case True
    with Cons.prems(1) v have loop: "max_key_loop key xs (a, v) = Some (r, rk)" by simp
    have inv: "\<forall>t \<in> insert a S. \<forall>k. key t = Some k \<longrightarrow> \<not> tuple_less v k"
    proof (intro ballI allI impI)
      fix t k assume t: "t \<in> insert a S" and k: "key t = Some k"
      show "\<not> tuple_less v k"
      proof
        assume l: "tuple_less v k"
        from t show False
        proof
          assume "t = a"
          with k v have "k = v" by simp
          with l tuple_less_irrefl show False by simp
        next
          assume "t \<in> S"
          with Cons.prems(4) k have "\<not> tuple_less bk k" by blast
          with tuple_less_trans [OF True l] show False by simp
        qed
      qed
    qed
    from Cons.IH [OF loop v _ inv] show ?thesis by simp
  next
    case False
    with Cons.prems(1) v have loop: "max_key_loop key xs (b, bk) = Some (r, rk)" by simp
    have inv: "\<forall>t \<in> insert a S. \<forall>k. key t = Some k \<longrightarrow> \<not> tuple_less bk k"
      using Cons.prems(4) False v by auto
    have mem: "b \<in> insert a S" using Cons.prems(3) by simp
    from Cons.IH [OF loop Cons.prems(2) mem inv] show ?thesis by simp
  qed
qed

lemma max_by_key_None:
  "(max_by_key key x xs = None) = (\<exists>t \<in> set (x # xs). key t = None)"
  by (cases "key x") (simp_all add: max_by_key_def max_key_loop_None)

lemma max_by_key_Some:
  assumes "max_by_key key x xs = Some r"
  shows "r \<in> set (x # xs)
         \<and> (\<exists>rk. key r = Some rk \<and> (\<forall>t \<in> set (x # xs). \<forall>k. key t = Some k \<longrightarrow> \<not> tuple_less rk k))"
proof -
  from assms obtain v rk where v: "key x = Some v" and loop: "max_key_loop key xs (x, v) = Some (r, rk)"
    by (auto simp: max_by_key_def split: option.splits)
  have "\<forall>t \<in> {x}. \<forall>k. key t = Some k \<longrightarrow> \<not> tuple_less v k"
    using v by (simp add: tuple_less_irrefl)
  from max_key_loop_Some [OF loop v _ this] show ?thesis by auto
qed

lemma not_less_triple_le:
  "\<not> tuple_less [a, b, c] [a', b', c'] \<Longrightarrow> triple_le (a', b', c') (a, b, c)"
  by auto

lemma latest_version_None:
  "(extract_latest_version_from_changelog max_str_digits content = None)
     = (all_versions content = [] \<or> (\<exists>t \<in> set (all_versions content). over_limit max_str_digits t))"
proof (cases "all_versions content")
  case Nil
  then show ?thesis by (simp add: extract_latest_version_from_changelog_def)
next
  case (Cons w ws)
  have "(extract_latest_version_from_changelog max_str_digits content = None)
          = (max_by_key (version_key max_str_digits) w ws = None)"
    by (simp add: extract_latest_version_from_changelog_def Cons split: option.splits)
  then show ?thesis
    unfolding max_by_key_None version_key_None by (simp add: Cons)
qed

lemma latest_version_in:
  assumes "extract_latest_version_from_changelog max_str_digits content = Some v"
  shows "v \<in> set (all_versions content)
         \<and> (\<exists>rk. version_key max_str_digits v = Some rk
               \<and> (\<forall>t \<in> set (all_versions content). \<forall>k. version_key max_str_digits t = Some k
                     \<longrightarrow> \<not> tuple_less rk k))"
proof -
  from assms obtain w ws where a: "all_versions content = w # ws"
    and v: "max_by_key (version_key max_str_digits) w ws = Some v"
    by (auto simp: extract_latest_version_from_changelog_def split: list.splits option.splits)
  from max_by_key_Some [OF v] show ?thesis by (simp add: a)
qed

lemma latest_version_nonempty:
  "extract_latest_version_from_changelog max_str_digits content = Some v \<Longrightarrow> v \<noteq> []"
  using latest_version_in all_versions_shape by fastforce

lemma small_keys:
  "version_key max_str_digits ''1.10.0'' = Some [1, 10, 0]"
  "version_key max_str_digits ''1.9.9'' = Some [1, 9, 9]"
  by (simp_all add: version_key_def py_int_def int_of_digits_def digit_val_def)

text \<open>
  Claim C5. Whenever the function returns a version, it is one of the extracted tokens,
  and the integer triple of every extracted token is at most the triple of the result in
  the numeric order on triples. The result is \<open>None\<close> when the three patterns extract no
  token, and otherwise only when a component of an extracted token has more digits than
  the interpreter converts, where \<open>int\<close> raises and the function catches the exception.
  For the text with the headings \<open>## [1.10.0]\<close> and \<open>## [1.9.9]\<close> the result is
  \<open>1.10.0\<close>, which a comparison of the strings would not select.
\<close>

theorem extract_latest_version_maximum:
  "(extract_latest_version_from_changelog max_str_digits content = None)
     = (all_versions content = [] \<or> (\<exists>t \<in> set (all_versions content). over_limit max_str_digits t))
   \<and> (\<forall>v. extract_latest_version_from_changelog max_str_digits content = Some v \<longrightarrow>
          v \<in> set (all_versions content)
          \<and> (\<forall>t \<in> set (all_versions content). triple_le (version_triple t) (version_triple v)))
   \<and> extract_latest_version_from_changelog max_str_digits ''## [1.10.0]\<newline>## [1.9.9]\<newline>''
       = Some ''1.10.0''"
proof -
  have some: "v \<in> set (all_versions content)
          \<and> (\<forall>t \<in> set (all_versions content). triple_le (version_triple t) (version_triple v))"
    if h: "extract_latest_version_from_changelog max_str_digits content = Some v" for v
  proof -
    from latest_version_in [OF h] obtain rk where vin: "v \<in> set (all_versions content)"
      and rk: "version_key max_str_digits v = Some rk"
      and mx: "\<forall>t \<in> set (all_versions content). \<forall>k. version_key max_str_digits t = Some k
                 \<longrightarrow> \<not> tuple_less rk k" by blast
    from all_versions_shape [OF vin] obtain x y z where v: "v = x @ CHR ''.'' # y @ CHR ''.'' # z"
      and dv: "all_digits x" "all_digits y" "all_digits z" by blast
    from version_key_token [OF dv rk [unfolded v]]
    have rkv: "rk = [int_of_digits x, int_of_digits y, int_of_digits z]" .
    from h have "extract_latest_version_from_changelog max_str_digits content \<noteq> None" by simp
    then have ok: "\<forall>t \<in> set (all_versions content). \<not> over_limit max_str_digits t"
      unfolding latest_version_None by blast
    have "triple_le (version_triple t) (version_triple v)" if t: "t \<in> set (all_versions content)" for t
    proof -
      from all_versions_shape [OF t] obtain x' y' z' where t': "t = x' @ CHR ''.'' # y' @ CHR ''.'' # z'"
        and dt: "all_digits x'" "all_digits y'" "all_digits z'" by blast
      from ok t have "version_key max_str_digits t \<noteq> None" by (simp add: version_key_None)
      then obtain k where k: "version_key max_str_digits t = Some k" by blast
      from version_key_token [OF dt k [unfolded t']]
      have kv: "k = [int_of_digits x', int_of_digits y', int_of_digits z']" .
      from mx t k have "\<not> tuple_less rk k" by blast
      then have "\<not> tuple_less [int_of_digits x, int_of_digits y, int_of_digits z]
                               [int_of_digits x', int_of_digits y', int_of_digits z']"
        unfolding rkv kv .
      from not_less_triple_le [OF this] show ?thesis
        unfolding v t' version_triple_token [OF dv] version_triple_token [OF dt] .
    qed
    with vin show ?thesis by blast
  qed
  have av: "all_versions ''## [1.10.0]\<newline>## [1.9.9]\<newline>'' = [''1.10.0'', ''1.9.9'', ''1.10.0'', ''1.9.9'']"
    by code_simp
  have ex: "extract_latest_version_from_changelog max_str_digits ''## [1.10.0]\<newline>## [1.9.9]\<newline>''
              = Some ''1.10.0''"
    by (simp add: extract_latest_version_from_changelog_def av max_by_key_def small_keys)
  from latest_version_None [of max_str_digits content] some ex show ?thesis by blast
qed

lemma version_token_end:
  assumes "all_digits x" "x \<noteq> []" "all_digits y" "y \<noteq> []" "all_digits z" "z \<noteq> []"
  shows "version_token (x @ CHR ''.'' # y @ CHR ''.'' # z)
         = Some (x @ CHR ''.'' # y @ CHR ''.'' # z, length x + length y + length z + 2)"
proof -
  from assms have dx: "\<And>c. c \<in> set x \<Longrightarrow> is_digit c" and dy: "\<And>c. c \<in> set y \<Longrightarrow> is_digit c"
    and dz: "\<forall>c \<in> set z. is_digit c" by (auto simp: digits_set)
  have a: "takeWhile is_digit (x @ CHR ''.'' # y @ CHR ''.'' # z) = x"
    and a': "dropWhile is_digit (x @ CHR ''.'' # y @ CHR ''.'' # z) = CHR ''.'' # y @ CHR ''.'' # z"
    using dx not_digit_dot by simp_all
  have b: "takeWhile is_digit (y @ CHR ''.'' # z) = y"
    and b': "dropWhile is_digit (y @ CHR ''.'' # z) = CHR ''.'' # z"
    using dy not_digit_dot by simp_all
  have c: "takeWhile is_digit z = z" using dz by (simp add: takeWhile_eq_all_conv)
  show ?thesis using assms(2,4,6) by (simp add: version_token_def a a' b b' c)
qed

text \<open>A text that is \<open>## \<close> and a token has the token among its versions.\<close>

lemma all_versions_hash:
  assumes "all_digits x" "x \<noteq> []" "all_digits y" "y \<noteq> []" "all_digits z" "z \<noteq> []"
  shows "x @ CHR ''.'' # y @ CHR ''.'' # z \<in> set (all_versions (''## '' @ x @ CHR ''.'' # y @ CHR ''.'' # z))"
proof -
  define tok where "tok = x @ CHR ''.'' # y @ CHR ''.'' # z"
  define n where "n = length x + length y + length z + 2"
  have t: "version_token tok = Some (tok, n)"
    unfolding tok_def n_def by (rule version_token_end [OF assms])
  define rest where "rest = ''# '' @ tok"
  have m: "version_pattern ''## '' [] (CHR ''#'' # rest) = Some (tok, 3 + n + 0)"
    using t by (simp add: version_pattern_def rest_def)
  have "findall (version_pattern ''## '' []) (CHR ''#'' # rest)
          = tok # findall (version_pattern ''## '' []) (drop (max (3 + n + 0) 1) (CHR ''#'' # rest))"
    by (simp only: findall.simps m option.case prod.case)
  then have "tok \<in> set (findall (version_pattern ''## '' []) (CHR ''#'' # rest))"
    by (simp only: list.set insertI1)
  then have "tok \<in> set (all_versions (''## '' @ tok))"
    by (simp add: all_versions_def version_patterns_def rest_def)
  then show ?thesis by (simp add: tok_def)
qed

text \<open>
  The theorem at a text with the tokens \<open>1.9.9\<close>, \<open>1.10.0\<close> and \<open>0.2.0\<close>, and at a text whose
  one token has a component of 4301 digits: with the limit 4300 the result is \<open>None\<close>,
  without a limit it is not.
\<close>

theorem extract_latest_version_maximum_witness:
  "extract_latest_version_from_changelog 4300 ''## [1.9.9]\<newline>## [1.10.0]\<newline>## 0.2.0'' = Some ''1.10.0''
   \<and> all_versions ''## [1.9.9]\<newline>## [1.10.0]\<newline>## 0.2.0'' = [''1.9.9'', ''1.10.0'', ''1.9.9'', ''1.10.0'', ''0.2.0'']
   \<and> triple_le (version_triple ''1.9.9'') (version_triple ''1.10.0'')
   \<and> triple_le (version_triple ''0.2.0'') (version_triple ''1.10.0'')
   \<and> extract_latest_version_from_changelog 4300 (''## '' @ replicate 4301 CHR ''1'' @ ''.0.0'') = None
   \<and> extract_latest_version_from_changelog 0 (''## '' @ replicate 4301 CHR ''1'' @ ''.0.0'') \<noteq> None"
proof -
  let ?c = "''## [1.9.9]\<newline>## [1.10.0]\<newline>## 0.2.0''"
  let ?big = "replicate 4301 CHR ''1'' @ CHR ''.'' # ''0'' @ CHR ''.'' # ''0''"
  have h: "extract_latest_version_from_changelog 4300 ?c = Some ''1.10.0''"
    by code_simp
  have a: "all_versions ?c = [''1.9.9'', ''1.10.0'', ''1.9.9'', ''1.10.0'', ''0.2.0'']"
    by code_simp
  from extract_latest_version_maximum [of 4300 ?c] h
  have "\<forall>t \<in> set (all_versions ?c). triple_le (version_triple t) (version_triple ''1.10.0'')"
    by blast
  with a have le: "triple_le (version_triple ''1.9.9'') (version_triple ''1.10.0'')"
    "triple_le (version_triple ''0.2.0'') (version_triple ''1.10.0'')" by simp_all
  have d1: "all_digits (replicate 4301 CHR ''1'')" "replicate 4301 CHR ''1'' \<noteq> []"
    and d0: "all_digits ''0''" "''0'' \<noteq> []"
    by (simp_all add: digits_set is_digit_def)
  have mem: "?big \<in> set (all_versions (''## '' @ ?big))"
    by (rule all_versions_hash [OF d1 d0 d0])
  have sp: "split_char CHR ''.'' ?big = [replicate 4301 CHR ''1'', ''0'', ''0'']"
    using split_char_digits_dot [OF d1(1), of "''0'' @ CHR ''.'' # ''0''"]
      split_char_digits_dot [OF d0(1), of "''0''"] split_char_digits [OF d0(1)]
    by simp
  have over: "over_limit 4300 ?big"
    unfolding over_limit_def sp by simp
  have none: "extract_latest_version_from_changelog 4300 (''## '' @ ?big) = None"
    using extract_latest_version_maximum [of 4300 "''## '' @ ?big"] mem over by blast
  have "\<forall>t \<in> set (all_versions (''## '' @ ?big)). \<not> over_limit 0 t"
    by (simp add: over_limit_def list_ex_iff)
  moreover from mem have "all_versions (''## '' @ ?big) \<noteq> []" by auto
  ultimately have some: "extract_latest_version_from_changelog 0 (''## '' @ ?big) \<noteq> None"
    using extract_latest_version_maximum [of 0 "''## '' @ ?big"] by blast
  from h a le none some show ?thesis by simp
qed

section \<open>Properties of \<open>extract_changelog_section_from_file\<close>\<close>

lemma find_changelog_start_None:
  "\<forall>l \<in> set lines. \<not> is_changelog_heading l \<Longrightarrow> find_changelog_start i lines = None"
  by (induction lines arbitrary: i) auto

lemma find_changelog_start_first:
  "\<forall>l \<in> set pre. \<not> is_changelog_heading l \<Longrightarrow> is_changelog_heading h \<Longrightarrow>
   find_changelog_start i (pre @ h # rest) = Some (i + length pre)"
  by (induction pre arbitrary: i) auto

lemma collect_section_takeWhile:
  "collect_section ls acc = acc @ map rstrip_newline (takeWhile (\<lambda>l. \<not> section_end l) ls)"
  by (induction ls arbitrary: acc) auto

lemma strip_last: "strip l \<noteq> [] \<Longrightarrow> \<not> is_space (last (strip l))"
proof -
  assume ne: "strip l \<noteq> []"
  let ?u = "dropWhile is_space (rev (dropWhile is_space l))"
  from ne have u: "?u \<noteq> []" by (simp add: strip_def)
  then have "\<not> is_space (hd ?u)" by (rule hd_dropWhile)
  moreover have "last (strip l) = hd ?u" using u by (simp add: strip_def last_rev)
  ultimately show ?thesis by simp
qed

lemma takeWhile_eq_replicate: "takeWhile (\<lambda>c. c = a) xs = replicate (length (takeWhile (\<lambda>c. c = a) xs)) a"
  by (induction xs) auto

lemma hashes_replicate: "takeWhile is_hash s = replicate (length (takeWhile is_hash s)) CHR ''#''"
  using takeWhile_eq_replicate [of "CHR ''#''" s] by (simp add: is_hash_def [abs_def])

lemma blanks_replicate: "takeWhile is_blank s = replicate (length (takeWhile is_blank s)) CHR '' ''"
  using takeWhile_eq_replicate [of "CHR '' ''" s] by (simp add: is_blank_def [abs_def])

lemma space_blank: "is_space CHR '' ''" "is_space CHR 0x0A"
  by (simp_all add: is_space_def)

text \<open>On a stripped line the heading pattern leaves nothing after the word.\<close>

lemma heading_match_stripped:
  assumes "heading_match lo hi word (strip l)"
  shows "\<exists>n k w. strip l = replicate n CHR ''#'' @ replicate k CHR '' '' @ w \<and> lo \<le> n \<and> n \<le> hi
                 \<and> 1 \<le> k \<and> map ascii_lower w = map ascii_lower word"
proof -
  define s where "s = strip l"
  define h where "h = takeWhile is_hash s"
  define r where "r = dropWhile is_hash s"
  define b where "b = takeWhile is_blank r"
  define r2 where "r2 = dropWhile is_blank r"
  define w where "w = take (length word) r2"
  define t where "t = drop (length word) r2"
  define t1 where "t1 = takeWhile is_blank t"
  define t2 where "t2 = dropWhile is_blank t"
  from assms have lo: "lo \<le> length h" and hi: "length h \<le> hi" and b: "b \<noteq> []"
    and w: "map ascii_lower w = map ascii_lower word"
    and tail: "t2 = [] \<or> t2 = ''\<newline>''"
    unfolding heading_match_def Let_def s_def h_def r_def b_def r2_def w_def t_def t2_def
    by simp_all
  have sr: "s = h @ r" by (simp add: h_def r_def)
  have rr: "r = b @ r2" by (simp add: b_def r2_def)
  have r2w: "r2 = w @ t" by (simp add: w_def t_def)
  have tt: "t = t1 @ t2" by (simp add: t1_def t2_def)
  have t1b: "\<forall>c \<in> set t1. is_blank c" unfolding t1_def by (auto dest: set_takeWhileD)
  have t: "t = []"
  proof (rule ccontr)
    assume ne: "t \<noteq> []"
    have "s = (h @ b @ w) @ t" by (simp add: sr rr r2w)
    with ne have sne: "s \<noteq> []" and ls: "last s = last t" by simp_all
    from strip_last [of l] sne ls have nsp: "\<not> is_space (last t)" by (simp add: s_def)
    from tail show False
    proof
      assume "t2 = []"
      with tt ne t1b have "is_blank (last t)" by simp
      with nsp space_blank(1) show False by (simp add: is_blank_def)
    next
      assume "t2 = ''\<newline>''"
      with tt have "last t = CHR 0x0A" by simp
      with nsp space_blank(2) show False by simp
    qed
  qed
  have "h = replicate (length h) CHR ''#''" unfolding h_def by (rule hashes_replicate)
  moreover have "b = replicate (length b) CHR '' ''" unfolding b_def by (rule blanks_replicate)
  ultimately have "s = replicate (length h) CHR ''#'' @ replicate (length b) CHR '' '' @ w"
    using sr rr r2w t by simp
  moreover from b have "1 \<le> length b" by (cases b) simp_all
  ultimately show ?thesis using lo hi w unfolding s_def by blast
qed

lemma run_then_stop:
  "\<forall>x \<in> set xs. P x \<Longrightarrow> \<not> P y \<Longrightarrow>
   takeWhile P (xs @ y # ys) = xs \<and> dropWhile P (xs @ y # ys) = y # ys"
  by (induction xs) auto

lemma heading_match_intro:
  assumes s: "s = replicate n CHR ''#'' @ replicate k CHR '' '' @ w" and n: "lo \<le> n" "n \<le> hi" and k: "1 \<le> k"
    and w: "map ascii_lower w = map ascii_lower word"
    and hd: "w \<noteq> []" "hd w \<noteq> CHR '' ''" "hd w \<noteq> CHR ''#''"
  shows "heading_match lo hi word s"
proof -
  from hd obtain c w' where cw: "w = c # w'" "c \<noteq> CHR '' ''" "c \<noteq> CHR ''#''" by (cases w) auto
  from k obtain k' where k': "k = Suc k'" by (cases k) auto
  define bl where "bl = replicate k CHR '' ''"
  define hs where "hs = replicate n CHR ''#''"
  have nh: "\<not> is_hash CHR '' ''" by (simp add: is_hash_def)
  have hh: "\<forall>x \<in> set hs. is_hash x" by (simp add: is_hash_def hs_def)
  have bb: "\<forall>x \<in> set bl. is_blank x" by (simp add: is_blank_def bl_def)
  have nb: "\<not> is_blank c" using cw(2) by (simp add: is_blank_def)
  have blne: "bl \<noteq> []" and bllen: "length bl = k" by (simp_all add: bl_def k')
  have s': "s = hs @ CHR '' '' # (replicate k' CHR '' '' @ w)"
    by (simp add: s k' hs_def)
  have r': "replicate k' CHR '' '' @ w = tl bl @ w" by (simp add: bl_def k')
  have bl': "CHR '' '' # tl bl = bl" by (simp add: bl_def k')
  from run_then_stop [OF hh nh, of "replicate k' CHR '' '' @ w"]
  have h: "takeWhile is_hash s = hs" and r: "dropWhile is_hash s = bl @ w"
    unfolding s' r' using bl' by simp_all
  from run_then_stop [OF bb nb, of w']
  have b: "takeWhile is_blank (bl @ w) = bl" and r2: "dropWhile is_blank (bl @ w) = w"
    by (simp_all add: cw(1))
  from w have len: "length w = length word" by (metis length_map)
  have hlen: "length hs = n" by (simp add: hs_def)
  show ?thesis
    unfolding heading_match_def Let_def h r b r2
    using n w len blne hlen by simp
qed

lemma lower_words:
  "map ascii_lower ''Changelog'' = ''changelog''"
  "map ascii_lower ''History'' = ''history''"
  "map ascii_lower ''Version History'' = ''version history''"
  by code_simp+

lemma lower_fixed: "ascii_lower CHR '' '' = CHR '' ''" "ascii_lower CHR ''#'' = CHR ''#''"
  by code_simp+

lemma lower_first:
  assumes "map ascii_lower w = a # as" "a \<noteq> CHR '' ''" "a \<noteq> CHR ''#''"
  shows "w \<noteq> [] \<and> hd w \<noteq> CHR '' '' \<and> hd w \<noteq> CHR ''#''"
proof -
  from assms(1) obtain c w' where w: "w = c # w'" and c: "ascii_lower c = a" by (cases w) auto
  from c assms(2,3) lower_fixed have "c \<noteq> CHR '' ''" "c \<noteq> CHR ''#''" by auto
  with w show ?thesis by simp
qed

lemma is_changelog_heading_iff:
  "is_changelog_heading line =
     (\<exists>n k w. strip line = replicate n CHR ''#'' @ replicate k CHR '' '' @ w \<and> 1 \<le> k
        \<and> ((1 \<le> n \<and> n \<le> 4 \<and> map ascii_lower w = ''changelog'')
            \<or> (n = 2 \<and> (map ascii_lower w = ''history'' \<or> map ascii_lower w = ''version history''))))"
  (is "?L = ?R")
proof
  assume ?L
  then consider (c) "heading_match 1 4 ''Changelog'' (strip line)"
    | (h) "heading_match 2 2 ''History'' (strip line)"
    | (v) "heading_match 2 2 ''Version History'' (strip line)"
    by (auto simp: is_changelog_heading_def)
  then show ?R
  proof cases
    case c
    from heading_match_stripped [OF c] obtain n k w where
      "strip line = replicate n CHR ''#'' @ replicate k CHR '' '' @ w" "1 \<le> n" "n \<le> 4" "1 \<le> k"
      "map ascii_lower w = ''changelog''" unfolding lower_words by auto
    then show ?thesis by (intro exI [of _ n] exI [of _ k] exI [of _ w]) simp
  next
    case h
    from heading_match_stripped [OF h] obtain n k w where
      "strip line = replicate n CHR ''#'' @ replicate k CHR '' '' @ w" "2 \<le> n" "n \<le> 2" "1 \<le> k"
      "map ascii_lower w = ''history''" unfolding lower_words by auto
    then show ?thesis by (intro exI [of _ n] exI [of _ k] exI [of _ w]) simp
  next
    case v
    from heading_match_stripped [OF v] obtain n k w where
      "strip line = replicate n CHR ''#'' @ replicate k CHR '' '' @ w" "2 \<le> n" "n \<le> 2" "1 \<le> k"
      "map ascii_lower w = ''version history''" unfolding lower_words by auto
    then show ?thesis by (intro exI [of _ n] exI [of _ k] exI [of _ w]) simp
  qed
next
  assume ?R
  then obtain n k w where s: "strip line = replicate n CHR ''#'' @ replicate k CHR '' '' @ w" and k: "1 \<le> k"
    and d: "(1 \<le> n \<and> n \<le> 4 \<and> map ascii_lower w = ''changelog'')
            \<or> (n = 2 \<and> (map ascii_lower w = ''history'' \<or> map ascii_lower w = ''version history''))"
    by auto
  from d consider (c) "1 \<le> n" "n \<le> 4" "map ascii_lower w = ''changelog''"
    | (h) "n = 2" "map ascii_lower w = ''history''"
    | (v) "n = 2" "map ascii_lower w = ''version history''" by auto
  then show ?L
  proof cases
    case c
    from lower_first [OF c(3)] have f: "w \<noteq> []" "hd w \<noteq> CHR '' ''" "hd w \<noteq> CHR ''#''" by simp_all
    from c(3) have "map ascii_lower w = map ascii_lower ''Changelog''" by (simp only: lower_words)
    from heading_match_intro [OF s c(1,2) k this f] show ?thesis
      by (simp add: is_changelog_heading_def)
  next
    case h
    from lower_first [OF h(2)] have f: "w \<noteq> []" "hd w \<noteq> CHR '' ''" "hd w \<noteq> CHR ''#''" by simp_all
    from h(2) have "map ascii_lower w = map ascii_lower ''History''" by (simp only: lower_words)
    from heading_match_intro [OF s _ _ k this f, of 2 2] h(1) show ?thesis
      by (simp add: is_changelog_heading_def)
  next
    case v
    from lower_first [OF v(2)] have f: "w \<noteq> []" "hd w \<noteq> CHR '' ''" "hd w \<noteq> CHR ''#''" by simp_all
    from v(2) have "map ascii_lower w = map ascii_lower ''Version History''" by (simp only: lower_words)
    from heading_match_intro [OF s _ _ k this f, of 2 2] v(1) show ?thesis
      by (simp add: is_changelog_heading_def)
  qed
qed

text \<open>
  Claim C6, as amended. A line starts the section exactly when its stripped text is
  one to four hashes, blanks and the word \<open>Changelog\<close> in any case, or exactly two hashes,
  blanks and \<open>History\<close> or \<open>Version History\<close> in any case. Without such a line the result
  is \<open>None\<close>. Otherwise the section starts at the first such line, and the result is the
  stripped text of the lines after it, joined by newlines, up to but not including the
  first line for which \<open>section_end\<close> holds: an unstripped line that starts with one or
  two hashes, blanks and a character other than \<open>[\<close> (which may be the last of two or more
  blanks), and does not start with \<open>##\<close>, blanks and \<open>[\<close>.
\<close>

theorem extract_changelog_section_result:
  "is_changelog_heading line =
     (\<exists>n k w. strip line = replicate n CHR ''#'' @ replicate k CHR '' '' @ w \<and> 1 \<le> k
        \<and> ((1 \<le> n \<and> n \<le> 4 \<and> map ascii_lower w = ''changelog'')
            \<or> (n = 2 \<and> (map ascii_lower w = ''history'' \<or> map ascii_lower w = ''version history''))))
   \<and> ((\<forall>l \<in> set lines. \<not> is_changelog_heading l) \<longrightarrow> extract_changelog_section_from_file lines = None)
   \<and> ((\<forall>l \<in> set pre. \<not> is_changelog_heading l) \<and> is_changelog_heading h \<longrightarrow>
        extract_changelog_section_from_file (pre @ h # rest) =
          Some (strip (join_newline (map rstrip_newline (takeWhile (\<lambda>l. \<not> section_end l) rest)))))"
proof -
  have none: "extract_changelog_section_from_file lines = None"
    if "\<forall>l \<in> set lines. \<not> is_changelog_heading l"
    using find_changelog_start_None [OF that, of 0]
    by (simp add: extract_changelog_section_from_file_def)
  have some: "extract_changelog_section_from_file (pre @ h # rest) =
          Some (strip (join_newline (map rstrip_newline (takeWhile (\<lambda>l. \<not> section_end l) rest))))"
    if "\<forall>l \<in> set pre. \<not> is_changelog_heading l" "is_changelog_heading h"
    using find_changelog_start_first [OF that, of 0 rest]
    by (simp add: extract_changelog_section_from_file_def collect_section_takeWhile)
  from is_changelog_heading_iff [of line] none some show ?thesis by simp
qed

text \<open>
  The theorem at a document with the heading \<open>#### ChangeLog\<close>, a version entry and a
  following \<open>## License\<close> section, at a document without a changelog heading, and at
  the heading \<open>## Version History\<close>.
\<close>

theorem extract_changelog_section_result_witness:
  "extract_changelog_section_from_file
     [''# Title\<newline>'', ''#### ChangeLog\<newline>'', ''\<newline>'', ''## [1.0.0] - 2025-01-01\<newline>'', ''### Added\<newline>'',
      ''- x\<newline>'', ''\<newline>'', ''## License\<newline>'', ''MIT\<newline>'']
     = Some ''## [1.0.0] - 2025-01-01\<newline>### Added\<newline>- x''
   \<and> extract_changelog_section_from_file [''# Title\<newline>'', ''text\<newline>''] = None
   \<and> is_changelog_heading ''## Version History\<newline>''"
proof -
  have p: "\<forall>l \<in> set [''# Title\<newline>'']. \<not> is_changelog_heading l" by code_simp
  have h: "is_changelog_heading ''#### ChangeLog\<newline>''" by code_simp
  have n: "\<forall>l \<in> set [''# Title\<newline>'', ''text\<newline>'']. \<not> is_changelog_heading l" by code_simp
  have r: "strip (join_newline (map rstrip_newline (takeWhile (\<lambda>l. \<not> section_end l)
             [''\<newline>'', ''## [1.0.0] - 2025-01-01\<newline>'', ''### Added\<newline>'', ''- x\<newline>'', ''\<newline>'', ''## License\<newline>'', ''MIT\<newline>''])))
           = ''## [1.0.0] - 2025-01-01\<newline>### Added\<newline>- x''" by code_simp
  have s: "strip ''## Version History\<newline>'' = replicate 2 CHR ''#'' @ replicate 1 CHR '' '' @ ''Version History''"
    by code_simp
  have l: "map ascii_lower ''Version History'' = ''version history''" by code_simp
  note t = extract_changelog_section_result [of "''## Version History\<newline>''" "[''# Title\<newline>'', ''text\<newline>'']"
      "[''# Title\<newline>'']" "''#### ChangeLog\<newline>''"
      "[''\<newline>'', ''## [1.0.0] - 2025-01-01\<newline>'', ''### Added\<newline>'', ''- x\<newline>'', ''\<newline>'', ''## License\<newline>'', ''MIT\<newline>'']"]
  note a = t [THEN conjunct1]
  note b = mp [OF t [THEN conjunct2, THEN conjunct1] n]
  note c = mp [OF t [THEN conjunct2, THEN conjunct2] conjI [OF p h]]
  have "is_changelog_heading ''## Version History\<newline>''"
    unfolding a using s l by (intro exI [of _ 2] exI [of _ 1] exI [of _ "''Version History''"]) simp
  with b c r show ?thesis by simp
qed

text \<open>
  Claim C6 as stated fails for \<open>History\<close> and \<open>Version History\<close> at a level other than
  two: \<open># History\<close> and \<open>### Version History\<close> are headings of level 1 to 4 with the
  right text, and no section is found.
\<close>

theorem extract_changelog_section_level:
  "spec_changelog_heading ''# History\<newline>''
   \<and> extract_changelog_section_from_file [''# History\<newline>'', ''## [1.0.0]\<newline>''] = None
   \<and> spec_changelog_heading ''### Version History\<newline>''
   \<and> extract_changelog_section_from_file [''### Version History\<newline>'', ''## [1.0.0]\<newline>''] = None"
  by code_simp

section \<open>Properties of \<open>check_changelog_consistency\<close>\<close>

lemma separate_version_truthy:
  "separate_version_of L sc = Some v \<Longrightarrow> truthy (separate_version_of L sc)"
  by (auto simp: separate_version_of_def truthy_def split: option.splits dest: latest_version_nonempty)

lemma embedded_version_truthy:
  "embedded_version_of L ec = Some v \<Longrightarrow> truthy (embedded_version_of L ec)"
  by (auto simp: embedded_version_of_def truthy_def split: option.splits if_splits dest: latest_version_nonempty)

lemma truthy_None: "\<not> truthy None"
  by (simp add: truthy_def)

text \<open>
  Claim C7. With the preference \<open>separate\<close> the verdict depends on the separate changelog
  alone: it is \<open>False\<close> exactly when a version is found there and differs from the metadata
  version, so it is \<open>True\<close> when there is no separate changelog, whatever the document
  embeds. With the preference \<open>both\<close> the verdict is \<open>False\<close> exactly when a version found
  in either source differs, so it is \<open>True\<close> when neither source gives a version.
\<close>

theorem check_changelog_consistency_verdict:
  "check_changelog_consistency max_str_digits metadata_version ''separate'' separate_changelog
       embedded_changelog_content
     = (\<not> (\<exists>v. separate_version_of max_str_digits separate_changelog = Some v \<and> v \<noteq> metadata_version))
   \<and> check_changelog_consistency max_str_digits metadata_version ''separate'' None
       embedded_changelog_content = True
   \<and> check_changelog_consistency max_str_digits metadata_version ''both'' separate_changelog
       embedded_changelog_content
     = (\<not> (\<exists>v. separate_version_of max_str_digits separate_changelog = Some v \<and> v \<noteq> metadata_version)
        \<and> \<not> (\<exists>v. embedded_version_of max_str_digits embedded_changelog_content = Some v
                  \<and> v \<noteq> metadata_version))
   \<and> check_changelog_consistency max_str_digits metadata_version ''both'' None None = True
   \<and> check_changelog_consistency max_str_digits ''1.0.0'' ''separate'' (Some ''## [1.0.1]'') None = False"
proof -
  let ?L = max_str_digits
  have sep: "check_changelog_consistency ?L metadata_version ''separate'' sc ec
     = (\<not> (\<exists>v. separate_version_of ?L sc = Some v \<and> v \<noteq> metadata_version))" for sc ec metadata_version
  proof (cases "separate_version_of ?L sc")
    case None
    then show ?thesis by (simp add: check_changelog_consistency_def truthy_None)
  next
    case (Some v)
    with separate_version_truthy [OF Some] show ?thesis
      by (auto simp: check_changelog_consistency_def)
  qed
  have both: "check_changelog_consistency ?L metadata_version ''both'' sc ec
     = (\<not> (\<exists>v. separate_version_of ?L sc = Some v \<and> v \<noteq> metadata_version)
        \<and> \<not> (\<exists>v. embedded_version_of ?L ec = Some v \<and> v \<noteq> metadata_version))" for sc ec
  proof (cases "separate_version_of ?L sc"; cases "embedded_version_of ?L ec")
    fix v w assume a: "separate_version_of ?L sc = Some v" "embedded_version_of ?L ec = Some w"
    with separate_version_truthy [OF a(1)] embedded_version_truthy [OF a(2)] show ?thesis
      by (auto simp: check_changelog_consistency_def)
  next
    fix v assume a: "separate_version_of ?L sc = Some v" "embedded_version_of ?L ec = None"
    with separate_version_truthy [OF a(1)] show ?thesis
      by (auto simp: check_changelog_consistency_def truthy_None)
  next
    fix w assume a: "separate_version_of ?L sc = None" "embedded_version_of ?L ec = Some w"
    with embedded_version_truthy [OF a(2)] show ?thesis
      by (auto simp: check_changelog_consistency_def truthy_None)
  next
    assume "separate_version_of ?L sc = None" "embedded_version_of ?L ec = None"
    then show ?thesis by (simp add: check_changelog_consistency_def truthy_None)
  qed
  have n: "separate_version_of ?L None = None" "embedded_version_of ?L None = None"
    by (simp_all add: separate_version_of_def embedded_version_of_def)
  have av: "all_versions ''## [1.0.1]'' = [''1.0.1'', ''1.0.1'']" by code_simp
  have key: "version_key ?L ''1.0.1'' = Some [1, 0, 1]"
    by (simp add: version_key_def py_int_def int_of_digits_def digit_val_def)
  have "separate_version_of ?L (Some ''## [1.0.1]'') = Some ''1.0.1''"
    by (simp add: separate_version_of_def extract_latest_version_from_changelog_def av
          max_by_key_def key)
  then have ex: "check_changelog_consistency ?L ''1.0.0'' ''separate'' (Some ''## [1.0.1]'') None = False"
    unfolding sep by simp
  from sep both n ex show ?thesis by simp
qed

section \<open>Properties of \<open>normalize_changelog_dates\<close>\<close>

lemma replacer_tuple:
  "replacer changes_made pre date_str =
     (True, pre @ py_str (PyTuple (normalize_date_format (strip date_str))))"
  by (simp add: replacer_def Let_def py_ne_def)

lemma sub_dates_Cons:
  "sub_dates ch (c # cs) =
     (case date_heading (c # cs) of
        None \<Rightarrow> (fst (sub_dates ch cs), c # snd (sub_dates ch cs))
      | Some (pre, date_str) \<Rightarrow>
          (fst (sub_dates True (drop (max (length pre + length date_str) 1) (c # cs))),
           pre @ py_str (PyTuple (normalize_date_format (strip date_str)))
             @ snd (sub_dates True (drop (max (length pre + length date_str) 1) (c # cs)))))"
  by (simp add: replacer_tuple split: option.split prod.split)

lemma sub_dates_True: "fst (sub_dates True s) = True"
proof (induction s rule: length_induct)
  case (1 s)
  show ?case
  proof (cases s)
    case Nil
    then show ?thesis by simp
  next
    case (Cons c cs)
    show ?thesis
    proof (cases "date_heading (c # cs)")
      case None
      with 1 Cons show ?thesis by (simp add: sub_dates_Cons del: sub_dates.simps)
    next
      case (Some pd)
      obtain pre d where pd: "pd = (pre, d)" by (cases pd)
      have "length (drop (max (length pre + length d) 1) (c # cs)) < length s"
        by (simp add: Cons)
      with 1 have "fst (sub_dates True (drop (max (length pre + length d) 1) (c # cs))) = True" by blast
      with Some pd Cons show ?thesis by (simp add: sub_dates_Cons del: sub_dates.simps)
    qed
  qed
qed

lemma sub_dates_flag: "fst (sub_dates ch s) = (ch \<or> contains_date_heading s)"
proof (induction s)
  case Nil
  then show ?case by simp
next
  case (Cons c cs)
  show ?case
  proof (cases "date_heading (c # cs)")
    case None
    with Cons show ?thesis by (simp add: sub_dates_Cons del: sub_dates.simps)
  next
    case (Some pd)
    obtain pre d where pd: "pd = (pre, d)" by (cases pd)
    with Some sub_dates_True show ?thesis by (simp add: sub_dates_Cons del: sub_dates.simps)
  qed
qed

lemma sub_dates_text: "snd (sub_dates ch s) = snd (sub_dates ch' s)"
proof (induction s)
  case Nil
  then show ?case by simp
next
  case (Cons c cs)
  show ?case
  proof (cases "date_heading (c # cs)")
    case None
    with Cons show ?thesis by (simp add: sub_dates_Cons del: sub_dates.simps)
  next
    case (Some pd)
    obtain pre d where pd: "pd = (pre, d)" by (cases pd)
    with Some show ?thesis by (simp add: sub_dates_Cons del: sub_dates.simps)
  qed
qed

lemma digit_run:
  "all_digits x \<Longrightarrow> \<not> is_digit y \<Longrightarrow>
   takeWhile is_digit (x @ y # ys) = x \<and> dropWhile is_digit (x @ y # ys) = y # ys"
  by (induction x) (auto simp: all_digits_def)

lemma version_token_at:
  assumes "all_digits x" "x \<noteq> []" "all_digits y" "y \<noteq> []" "all_digits z" "z \<noteq> []" "\<not> is_digit c"
  shows "version_token (x @ CHR ''.'' # y @ CHR ''.'' # z @ c # r)
         = Some (x @ CHR ''.'' # y @ CHR ''.'' # z, length x + length y + length z + 2)"
proof -
  have nd: "\<not> is_digit CHR ''.''" by (simp add: is_digit_def)
  note a = digit_run [OF assms(1) nd, of "y @ CHR ''.'' # z @ c # r"]
  note b = digit_run [OF assms(3) nd, of "z @ c # r"]
  note d = digit_run [OF assms(5) assms(7), of r]
  show ?thesis
    using assms(2,4,6) by (simp add: version_token_def a b d)
qed

lemma date_heading_at:
  assumes "all_digits x" "x \<noteq> []" "all_digits y" "y \<noteq> []" "all_digits z" "z \<noteq> []"
    and "list_all not_newline date" and "rest = [] \<or> hd rest = CHR 0x0A"
  shows "date_heading (''## ['' @ x @ ''.'' @ y @ ''.'' @ z @ ''] - '' @ date @ rest)
         = Some (''## ['' @ x @ ''.'' @ y @ ''.'' @ z @ ''] - '', date)"
proof -
  define v where "v = x @ CHR ''.'' # y @ CHR ''.'' # z"
  define n where "n = length x + length y + length z + 2"
  have nd: "\<not> is_digit CHR '']''" by (simp add: is_digit_def)
  have tok: "version_token (v @ CHR '']'' # '' - '' @ date @ rest) = Some (v, n)"
    using version_token_at [OF assms(1-6) nd, of "'' - '' @ date @ rest"] by (simp add: v_def n_def)
  have lv: "length v = n" by (simp add: v_def n_def)
  have s: "''## ['' @ x @ ''.'' @ y @ ''.'' @ z @ ''] - '' @ date @ rest
           = ''## ['' @ v @ CHR '']'' # '' - '' @ date @ rest" by (simp add: v_def)
  have vp: "version_pattern ''## ['' ''] - '' (''## ['' @ v @ CHR '']'' # '' - '' @ date @ rest)
            = Some (v, 4 + n + 4)"
    using tok lv by (simp add: version_pattern_def)
  have tw: "takeWhile not_newline (date @ rest) = date"
  proof (cases rest)
    case Nil
    with assms(7) show ?thesis by (simp add: list_all_iff)
  next
    case (Cons c r)
    with assms(8) have "\<not> not_newline c" by (simp add: not_newline_def)
    with assms(7) Cons show ?thesis by (simp add: list_all_iff)
  qed
  define A where "A = ''## ['' @ v @ ''] - ''"
  have la: "length A = 4 + n + 4" by (simp add: A_def lv)
  have sa: "''## ['' @ v @ CHR '']'' # '' - '' @ date @ rest = A @ date @ rest" by (simp add: A_def)
  have tk: "take (4 + n + 4) (A @ date @ rest) = A" using la by simp
  have dr: "drop (4 + n + 4) (A @ date @ rest) = date @ rest" using la by simp
  have "date_heading (A @ date @ rest) = Some (A, date)"
    unfolding date_heading_def vp [unfolded sa] using tk dr tw by simp
  then show ?thesis unfolding s sa by (simp add: A_def v_def)
qed

lemma date_heading_Nil: "date_heading [] = None"
  by (simp add: date_heading_def version_pattern_def)

lemma contains_append:
  "date_heading s \<noteq> None \<Longrightarrow> contains_date_heading (a @ s)"
proof (induction a)
  case Nil
  then show ?case using date_heading_Nil by (cases s) auto
next
  case (Cons c a)
  then show ?case by simp
qed

text \<open>
  Claim C10. A text in which the heading pattern \<open>## [X.Y.Z] - \<close> matches somewhere makes
  the function report changes. A heading \<open>## [X.Y.Z] - date\<close> at the start of the text,
  up to the end of its line, is rewritten to the heading with the \<open>str\<close> of the whole
  triple that \<open>normalize_date_format\<close> returns for the stripped date, whatever the date is,
  also one already in the form \<open>YYYY-MM-DD\<close>; such a heading anywhere in a text makes it
  contain the pattern. Where no heading starts, the character is copied, so every
  heading of the text is rewritten in this way and nothing else changes.
\<close>

theorem normalize_changelog_dates_tuple:
  "(contains_date_heading content \<longrightarrow> fst (normalize_changelog_dates content))
   \<and> (all_digits x \<and> x \<noteq> [] \<and> all_digits y \<and> y \<noteq> [] \<and> all_digits z \<and> z \<noteq> []
        \<and> list_all not_newline date \<and> (rest = [] \<or> hd rest = CHR 0x0A) \<longrightarrow>
        contains_date_heading (before @ ''## ['' @ x @ ''.'' @ y @ ''.'' @ z @ ''] - '' @ date @ rest)
        \<and> normalize_changelog_dates (''## ['' @ x @ ''.'' @ y @ ''.'' @ z @ ''] - '' @ date @ rest) =
            (True, ''## ['' @ x @ ''.'' @ y @ ''.'' @ z @ ''] - ''
                     @ py_str (PyTuple (normalize_date_format (strip date)))
                     @ snd (normalize_changelog_dates rest)))
   \<and> (date_heading (c # cs) = None \<longrightarrow>
        snd (normalize_changelog_dates (c # cs)) = c # snd (normalize_changelog_dates cs))"
proof -
  have flag: "fst (normalize_changelog_dates content)" if "contains_date_heading content"
    using that by (simp add: normalize_changelog_dates_def sub_dates_flag)
  have copy: "snd (normalize_changelog_dates (c # cs)) = c # snd (normalize_changelog_dates cs)"
    if "date_heading (c # cs) = None"
    using that by (simp add: normalize_changelog_dates_def sub_dates_Cons del: sub_dates.simps)
  have heading: "contains_date_heading (before @ ''## ['' @ x @ ''.'' @ y @ ''.'' @ z @ ''] - '' @ date @ rest)
        \<and> normalize_changelog_dates (''## ['' @ x @ ''.'' @ y @ ''.'' @ z @ ''] - '' @ date @ rest) =
            (True, ''## ['' @ x @ ''.'' @ y @ ''.'' @ z @ ''] - ''
                     @ py_str (PyTuple (normalize_date_format (strip date)))
                     @ snd (normalize_changelog_dates rest))"
    if h: "all_digits x" "x \<noteq> []" "all_digits y" "y \<noteq> []" "all_digits z" "z \<noteq> []"
      "list_all not_newline date" "rest = [] \<or> hd rest = CHR 0x0A"
  proof -
    define pre where "pre = ''## ['' @ x @ ''.'' @ y @ ''.'' @ z @ ''] - ''"
    define s where "s = pre @ date @ rest"
    have dh: "date_heading s = Some (pre, date)"
      using date_heading_at [OF h] by (simp add: s_def pre_def)
    have pne: "pre = CHR ''#'' # tl pre" by (simp add: pre_def)
    then obtain cs' where scs: "s = CHR ''#'' # cs'" unfolding s_def by (metis append_Cons)
    have len: "1 \<le> length pre + length date" by (simp add: pre_def)
    have dr: "drop (max (length pre + length date) 1) s = rest"
      using len by (simp add: s_def max_def)
    have "sub_dates False s =
            (fst (sub_dates True rest),
             pre @ py_str (PyTuple (normalize_date_format (strip date))) @ snd (sub_dates True rest))"
      using dh dr unfolding scs by (simp add: sub_dates_Cons del: sub_dates.simps)
    then have "normalize_changelog_dates s =
            (True, pre @ py_str (PyTuple (normalize_date_format (strip date)))
                     @ snd (normalize_changelog_dates rest))"
      using sub_dates_True [of rest] sub_dates_text [of True rest False]
      by (simp add: normalize_changelog_dates_def)
    moreover from dh have "contains_date_heading (before @ s)" by (intro contains_append) simp
    ultimately show ?thesis by (simp add: s_def pre_def)
  qed
  from flag copy heading show ?thesis by blast
qed

text \<open>
  The theorem at \<open>## [1.0.0] - 2025-01-01\<close>: the date is valid and in ISO form, and the
  line becomes \<open>## [1.0.0] - ('2025-01-01', False, 'YYYY-MM-DD')\<close>.
\<close>

theorem normalize_changelog_dates_tuple_witness:
  "normalize_changelog_dates ''## [1.0.0] - 2025-01-01\<newline>''
     = (True, ''## [1.0.0] - ('' @ [CHR 0x27] @ ''2025-01-01'' @ [CHR 0x27] @ '', False, ''
               @ [CHR 0x27] @ ''YYYY-MM-DD'' @ [CHR 0x27] @ '')\<newline>'')
   \<and> contains_date_heading ''# Changelog\<newline>## [1.0.0] - 2025-01-01\<newline>''
   \<and> fst (normalize_changelog_dates ''# Changelog\<newline>## [1.0.0] - 2025-01-01\<newline>'')"
proof -
  note t = normalize_changelog_dates_tuple [of "''# Changelog\<newline>## [1.0.0] - 2025-01-01\<newline>''"
      "''1''" "''0''" "''0''" "''2025-01-01''" "''\<newline>''" "''# Changelog\<newline>''" "CHR 0x0A" "[]"]
  have h: "all_digits ''1'' \<and> ''1'' \<noteq> [] \<and> all_digits ''0'' \<and> ''0'' \<noteq> [] \<and> all_digits ''0'' \<and> ''0'' \<noteq> []
        \<and> list_all not_newline ''2025-01-01'' \<and> (''\<newline>'' = [] \<or> hd ''\<newline>'' = CHR 0x0A)"
    by code_simp
  have n: "date_heading [CHR 0x0A] = None" by code_simp
  have e: "snd (normalize_changelog_dates []) = []" by (simp add: normalize_changelog_dates_def)
  have r: "py_str (PyTuple (normalize_date_format (strip ''2025-01-01'')))
           = ''('' @ [CHR 0x27] @ ''2025-01-01'' @ [CHR 0x27] @ '', False, ''
               @ [CHR 0x27] @ ''YYYY-MM-DD'' @ [CHR 0x27] @ '')''"
    by code_simp
  note a = mp [OF t [THEN conjunct2, THEN conjunct1] h]
  note c = mp [OF t [THEN conjunct2, THEN conjunct2] n]
  from a have c1: "contains_date_heading ''# Changelog\<newline>## [1.0.0] - 2025-01-01\<newline>''" by simp
  note f = mp [OF t [THEN conjunct1] c1]
  from a c e r f c1 show ?thesis by simp
qed

end
